theory Spec2Isabelle
  imports Main "HOL-Library.Word" "HOL-Library.Signed_Division"
begin

section \<open>The Reader of package xz (reader.go)\<close>

text \<open>
  This theory embeds the Go Reader API of package xz: \<^verbatim>\<open>NewReader\<close>, \<^verbatim>\<open>Reader.decode\<close>,
  \<^verbatim>\<open>Reader.Read\<close>, \<^verbatim>\<open>Reader.Multistream\<close> and \<^verbatim>\<open>Reader.Reset\<close>, and proves properties
  of them. The XZ decoder proper (\<^verbatim>\<open>xzDecInit\<close>, \<^verbatim>\<open>xzDecReset\<close>, \<^verbatim>\<open>xzDecRun\<close>) and the
  wrapped \<^verbatim>\<open>io.Reader\<close> are called by this code but are not part of it: they are parameters
  of the model, collected in the record \<open>extern\<close>.
\<close>

subsection \<open>Data\<close>

type_synonym byte = "8 word"

text \<open>
  Go's \<^verbatim>\<open>error\<close> values. The first seven are the package's variables, \<open>EOF\<close> is
  \<^verbatim>\<open>io.EOF\<close>, and \<open>ErrOther k\<close> stands for any other error value an upstream reader may
  return. The nil error is \<open>None\<close> of \<open>error option\<close>.
\<close>

datatype error =
    ErrUnsupportedCheck
  | ErrMemlimit
  | ErrFormat
  | ErrOptions
  | ErrData
  | ErrBuf
  | ErrNilReader
  | EOF
  | ErrOther nat

text \<open>The return codes \<^verbatim>\<open>xzRet\<close> of the decoder.\<close>

datatype xzRet =
    xzOK
  | xzStreamEnd
  | xzUnsupportedCheck
  | xzMemlimitError
  | xzFormatError
  | xzOptionsError
  | xzDataError
  | xzBufError

text \<open>
  \<^verbatim>\<open>type xzBuf struct { in []byte; inPos int; out []byte; outPos int }\<close>.
  The field \<^verbatim>\<open>in\<close> is called \<open>inB\<close> here, \<open>in\<close> being a keyword.
\<close>

record xzBuf =
  inB :: "byte list"
  inPos :: int
  out :: "byte list"
  outPos :: int

text \<open>
  \<^verbatim>\<open>type Reader struct\<close>. The wrapped reader \<^verbatim>\<open>r\<close> is the field \<open>src\<close> (the state of the
  upstream object), the backing array \<^verbatim>\<open>in\<close> is \<open>inArr\<close>, and the Reader's own \<^verbatim>\<open>outPos\<close>
  is \<open>rOutPos\<close>, to keep it apart from the field of \<open>xzBuf\<close>. The cursors are Go ints
  bounded by slice lengths, so they are modelled as \<open>int\<close>; \<^verbatim>\<open>padding\<close> counts bytes over
  the whole input and is the one counter that can wrap, so it is a 64-bit word read
  through \<open>sint\<close> (Go's int on a 64-bit platform).
\<close>

record ('d, 'u) Reader =
  src :: 'u
  multistream :: bool
  rEOF :: bool
  dEOF :: bool
  padding :: "64 word"
  inArr :: "byte list"
  rOutPos :: int
  buf :: xzBuf
  dec :: 'd
  err :: "error option"

text \<open>
  What the Reader calls and \<^verbatim>\<open>reader.go\<close> does not define. \<open>xzDecRun d b\<close> returns the
  code together with the decoder state and the buffer pair as the call leaves them (Go
  mutates both through pointers). \<open>src_Read u a\<close> is \<^verbatim>\<open>r.r.Read(r.in[:])\<close> on the upstream
  state \<open>u\<close> and the array contents \<open>a\<close>: it returns the array as the call leaves it, the
  count \<^verbatim>\<open>rn\<close>, the error, and the new upstream state.
\<close>

record ('d, 'u) extern =
  xzDecInit :: "32 word \<Rightarrow> 'd"
  xzDecReset :: "'d \<Rightarrow> 'd"
  xzDecRun :: "'d \<Rightarrow> xzBuf \<Rightarrow> xzRet \<times> 'd \<times> xzBuf"
  src_Read :: "'u \<Rightarrow> byte list \<Rightarrow> (byte list \<times> int \<times> error option) \<times> 'u"

definition DefaultDictMax :: "32 word" where
  "DefaultDictMax = push_bit 26 1"

definition bufSize :: nat where
  "bufSize = 2 ^ 13"

subsection \<open>NewReader, Multistream, Reset\<close>

text \<open>
  \<^verbatim>\<open>NewReader(r io.Reader, dictMax uint32) (*Reader, error)\<close>. A nil \<^verbatim>\<open>r\<close> is \<open>None\<close>. The
  result is \<open>Inl\<close> of the error (and no Reader) or \<open>Inr\<close> of the new Reader. Fields the
  composite literal leaves out have Go's zero value.
\<close>

definition NewReader ::
  "('d, 'u) extern \<Rightarrow> 'u option \<Rightarrow> 32 word \<Rightarrow> error + ('d, 'u) Reader" where
  "NewReader E r dictMax =
     (case r of
        None \<Rightarrow> Inl ErrNilReader
      | Some u \<Rightarrow>
          let dictMax' = (if dictMax = 0 then DefaultDictMax else dictMax)
          in Inr \<lparr> src = u,
                   multistream = True,
                   rEOF = False,
                   dEOF = False,
                   padding = - 1,
                   inArr = replicate bufSize 0,
                   rOutPos = 0,
                   buf = \<lparr> inB = [], inPos = 0, out = replicate bufSize 0, outPos = 0 \<rparr>,
                   dec = xzDecInit E dictMax',
                   err = None \<rparr>)"

definition Multistream :: "('d, 'u) Reader \<Rightarrow> bool \<Rightarrow> ('d, 'u) Reader" where
  "Multistream r ok = r\<lparr>multistream := ok\<rparr>"

text \<open>\<^verbatim>\<open>Reset\<close> returns its error and the Reader as the call leaves it.\<close>

definition Reset :: "('d, 'u) Reader \<Rightarrow> error option \<times> ('d, 'u) Reader" where
  "Reset r =
     (if \<not> dEOF r then (None, r)
      else if rEOF r then (Some EOF, r)
      else (None, r\<lparr>dEOF := False, multistream := True\<rparr>))"

subsection \<open>decode\<close>

text \<open>
  The loop of \<^verbatim>\<open>decode\<close> that reads all padding in the input buffer. Indexing \<^verbatim>\<open>in\<close> at a
  negative position panics in Go: the result is then \<open>None\<close>.
\<close>

function pad_loop :: "('d, 'u) Reader \<Rightarrow> ('d, 'u) Reader option" where
  "pad_loop r =
     (if inPos (buf r) < int (length (inB (buf r))) then
        (if inPos (buf r) < 0 then None
         else if inB (buf r) ! nat (inPos (buf r)) = 0 then
           pad_loop (r\<lparr>buf := (buf r)\<lparr>inPos := inPos (buf r) + 1\<rparr>,
                       padding := padding r + 1\<rparr>)
         else Some r)
      else Some r)"
  by pat_completeness auto
termination
  by (relation "measure (\<lambda>r. nat (int (length (inB (buf r))) - inPos (buf r)))") auto

declare pad_loop.simps [simp del]

text \<open>
  \<^verbatim>\<open>func (r *Reader) decode() (ret xzRet)\<close>: the code and the Reader as the call leaves it,
  \<open>None\<close> on a panic. Go's \<^verbatim>\<open>%\<close> truncates towards zero: \<open>smod\<close> on the signed value.
\<close>

definition decode ::
  "('d, 'u) extern \<Rightarrow> ('d, 'u) Reader \<Rightarrow> (xzRet \<times> ('d, 'u) Reader) option" where
  "decode E r =
     (if 0 \<le> sint (padding r) then
        (case pad_loop r of
           None \<Rightarrow> None
         | Some r1 \<Rightarrow>
             if inPos (buf r1) = int (length (inB (buf r1))) \<and> rEOF r1 then
               (if sint (padding r1) smod 4 \<noteq> 0 then Some (xzBufError, r1)
                else Some (xzStreamEnd, r1))
             else if inPos (buf r1) = int (length (inB (buf r1))) then
               Some (xzOK, r1)
             else
               (if sint (padding r1) smod 4 \<noteq> 0 then Some (xzDataError, r1)
                else Some (xzStreamEnd, r1\<lparr>dec := xzDecReset E (dec r1)\<rparr>)))
      else
        (let (ret, d', b') = xzDecRun E (dec r) ((buf r)\<lparr>outPos := 0\<rparr>)
         in Some (ret, r\<lparr>rOutPos := 0, buf := b', dec := d'\<rparr>)))"

subsection \<open>Read\<close>

text \<open>
  The loop that copies \<^verbatim>\<open>r.buf.out\<close> to \<^verbatim>\<open>p\<close>. It returns \<^verbatim>\<open>p\<close>, \<^verbatim>\<open>n\<close> and the Reader as
  it leaves them, \<open>None\<close> when an index is out of range.
\<close>

function copy_out ::
  "byte list \<Rightarrow> int \<Rightarrow> ('d, 'u) Reader \<Rightarrow> (byte list \<times> int \<times> ('d, 'u) Reader) option" where
  "copy_out p n r =
     (if rOutPos r < outPos (buf r) \<and> n < int (length p) then
        (if n < 0 \<or> rOutPos r < 0 \<or> int (length (out (buf r))) \<le> rOutPos r then None
         else copy_out (p[nat n := out (buf r) ! nat (rOutPos r)]) (n + 1)
                (r\<lparr>rOutPos := rOutPos r + 1\<rparr>))
      else Some (p, n, r))"
  by pat_completeness auto
termination
  by (relation "measure (\<lambda>(p, n, r). nat (int (length p) - n))") auto

declare copy_out.simps [simp del]

text \<open>How a step of a loop ends: with a panic, leaving the loop, or going round again.\<close>

datatype ('a, 'b) flow = Panicked | Break 'a | Continue 'b

text \<open>
  "If needed, read more data from r.r". On a read error the loop is left before
  \<^verbatim>\<open>r.buf.in\<close> is set again; \<^verbatim>\<open>r.buf.in\<close> is a slice of the array \<^verbatim>\<open>r.in\<close> that the upstream
  has written to, so it shows the array's new contents. \<^verbatim>\<open>r.in[:rn]\<close> panics when
  \<^verbatim>\<open>rn\<close> is out of range.
\<close>

definition refill ::
  "('d, 'u) extern \<Rightarrow> ('d, 'u) Reader \<Rightarrow>
     (error option \<times> ('d, 'u) Reader, ('d, 'u) Reader) flow" where
  "refill E r =
     (if inPos (buf r) = int (length (inB (buf r))) \<and> \<not> rEOF r then
        (let ((a, rn, e), u) = src_Read E (src r) (inArr r) in
         if e \<noteq> None \<and> e \<noteq> Some EOF then
           Break (e, r\<lparr>src := u, inArr := a,
                       buf := (buf r)\<lparr>inB := take (length (inB (buf r))) a\<rparr>\<rparr>)
         else if rn < 0 \<or> int (length a) < rn then Panicked
         else Continue (r\<lparr>src := u, inArr := a,
                          rEOF := (if e = Some EOF then True else rEOF r),
                          buf := (buf r)\<lparr>inB := take (nat rn) a, inPos := 0\<rparr>\<rparr>))
      else Continue r)"

text \<open>The \<^verbatim>\<open>switch ret\<close> of \<^verbatim>\<open>Read\<close>: the new value of \<^verbatim>\<open>err\<close> and the Reader.\<close>

definition dispatch ::
  "xzRet \<Rightarrow> error option \<Rightarrow> ('d, 'u) Reader \<Rightarrow> error option \<times> ('d, 'u) Reader" where
  "dispatch ret e r =
     (case ret of
        xzOK \<Rightarrow> (e, r)
      | xzStreamEnd \<Rightarrow>
          (if 0 \<le> sint (padding r) then
             (e, (if \<not> multistream r \<or> rEOF r = True
                  then r\<lparr>padding := - 1, dEOF := True\<rparr>
                  else r\<lparr>padding := - 1\<rparr>))
           else (e, r\<lparr>padding := 0\<rparr>))
      | xzUnsupportedCheck \<Rightarrow> (Some ErrUnsupportedCheck, r)
      | xzMemlimitError \<Rightarrow> (Some ErrMemlimit, r)
      | xzFormatError \<Rightarrow> (Some ErrFormat, r)
      | xzOptionsError \<Rightarrow> (Some ErrOptions, r)
      | xzDataError \<Rightarrow> (Some ErrData, r)
      | xzBufError \<Rightarrow> (Some ErrBuf, r))"

text \<open>
  One turn of the \<^verbatim>\<open>for\<close> loop of \<^verbatim>\<open>Read\<close>, on the caller's slice \<open>p\<close>, the results \<open>n\<close> and
  \<open>e\<close> (Go's \<^verbatim>\<open>err\<close>) and the Reader. It returns how the turn ends, with \<open>(n, err, p, r)\<close>
  at that point, and the Reader as observed after each part of the turn: after the copy
  loop, after the upstream read, after \<^verbatim>\<open>decode\<close>, and after the switch and "save err".
\<close>

type_synonym ('d, 'u) result = "int \<times> error option \<times> byte list \<times> ('d, 'u) Reader"

definition Read_iter ::
  "('d, 'u) extern \<Rightarrow> byte list \<Rightarrow> int \<Rightarrow> error option \<Rightarrow> ('d, 'u) Reader \<Rightarrow>
     ('d, 'u) Reader list \<times> (('d, 'u) result, ('d, 'u) result) flow" where
  "Read_iter E p n e r =
     (case copy_out p n r of
        None \<Rightarrow> ([], Panicked)
      | Some (p1, n1, r1) \<Rightarrow>
          if rOutPos r1 < outPos (buf r1) \<and> n1 = int (length p1) then
            ([r1], Break (n1, None, p1, r1))
          else if e \<noteq> None then ([r1], Break (n1, e, p1, r1))
          else if dEOF r1 then ([r1], Break (n1, Some EOF, p1, r1))
          else
            (case refill E r1 of
               Panicked \<Rightarrow> ([r1], Panicked)
             | Break (e2, r2) \<Rightarrow> ([r1, r2], Break (n1, e2, p1, r2))
             | Continue r2 \<Rightarrow>
                 (case decode E r2 of
                    None \<Rightarrow> ([r1, r2], Panicked)
                  | Some (ret, r3) \<Rightarrow>
                      let (e4, r4) = dispatch ret e r3;
                          r5 = r4\<lparr>err := e4\<rparr>
                      in ([r1, r2, r3, r5], Continue (n1, e4, p1, r5)))))"

text \<open>
  The \<^verbatim>\<open>for\<close> loop has no bound and may run forever (an upstream that keeps returning
  no bytes and no error while padding is read): the first argument after \<open>E\<close> is the
  number of turns allowed, and \<open>OutOfFuel\<close> says that they did not suffice.
\<close>

datatype 'a outcome = OutOfFuel | Panic | Return 'a

fun Read_loop ::
  "('d, 'u) extern \<Rightarrow> nat \<Rightarrow> byte list \<Rightarrow> int \<Rightarrow> error option \<Rightarrow> ('d, 'u) Reader \<Rightarrow>
     ('d, 'u) result outcome" where
  "Read_loop E 0 p n e r = OutOfFuel"
| "Read_loop E (Suc k) p n e r =
     (case snd (Read_iter E p n e r) of
        Panicked \<Rightarrow> Panic
      | Break x \<Rightarrow> Return x
      | Continue (n', e', p', r') \<Rightarrow> Read_loop E k p' n' e' r')"

text \<open>
  \<^verbatim>\<open>func (r *Reader) Read(p []byte) (n int, err error)\<close>: \<open>Return (n, err, p', r')\<close> with
  the slice and the Reader as the call leaves them.
\<close>

definition Read ::
  "('d, 'u) extern \<Rightarrow> nat \<Rightarrow> ('d, 'u) Reader \<Rightarrow> byte list \<Rightarrow> ('d, 'u) result outcome" where
  "Read E k r p = Read_loop E k p 0 (err r) r"

text \<open>The Readers observed during the first \<open>k\<close> turns of a call of \<^verbatim>\<open>Read\<close>, in order.\<close>

fun obs_loop ::
  "('d, 'u) extern \<Rightarrow> nat \<Rightarrow> byte list \<Rightarrow> int \<Rightarrow> error option \<Rightarrow> ('d, 'u) Reader \<Rightarrow>
     ('d, 'u) Reader list" where
  "obs_loop E 0 p n e r = []"
| "obs_loop E (Suc k) p n e r =
     fst (Read_iter E p n e r) @
     (case snd (Read_iter E p n e r) of
        Continue (n', e', p', r') \<Rightarrow> obs_loop E k p' n' e' r'
      | _ \<Rightarrow> [])"

definition Read_obs ::
  "('d, 'u) extern \<Rightarrow> nat \<Rightarrow> ('d, 'u) Reader \<Rightarrow> byte list \<Rightarrow> ('d, 'u) Reader list" where
  "Read_obs E k r p = r # obs_loop E k p 0 (err r) r"

subsection \<open>Vocabulary of the properties\<close>

text \<open>The decoded bytes that \<^verbatim>\<open>Read\<close> has not yet copied to a caller.\<close>

definition pending :: "('d, 'u) Reader \<Rightarrow> byte list" where
  "pending r =
     take (nat (outPos (buf r) - rOutPos r)) (drop (nat (rOutPos r)) (out (buf r)))"

text \<open>The number of zero bytes at the input cursor.\<close>

definition zero_run :: "xzBuf \<Rightarrow> nat" where
  "zero_run b = length (takeWhile (\<lambda>x. x = 0) (drop (nat (inPos b)) (inB b)))"

text \<open>The cursors are within their slices.\<close>

definition buf_ok :: "xzBuf \<Rightarrow> bool" where
  "buf_ok b \<longleftrightarrow>
     0 \<le> inPos b \<and> inPos b \<le> int (length (inB b)) \<and>
     0 \<le> outPos b \<and> outPos b \<le> int (length (out b))"

definition cursors_ok :: "('d, 'u) Reader \<Rightarrow> bool" where
  "cursors_ok r \<longleftrightarrow> buf_ok (buf r) \<and> 0 \<le> rOutPos r \<and> rOutPos r \<le> outPos (buf r)"

text \<open>\<^verbatim>\<open>r.buf.in\<close> is a slice of the array \<^verbatim>\<open>r.in\<close>, from its start.\<close>

definition slice_ok :: "('d, 'u) Reader \<Rightarrow> bool" where
  "slice_ok r \<longleftrightarrow> length (inB (buf r)) \<le> length (inArr r)"

text \<open>
  What is asked of the decoder. The documentation of \<^verbatim>\<open>xzBuf\<close> says that \<^verbatim>\<open>inPos\<close> and
  \<^verbatim>\<open>outPos\<close> "must not exceed" the buffer sizes, and that "only the contents of the output
  buffer from out[outPos] onward, and the variables inPos and outPos are modified by the
  XZ code": a run leaves \<^verbatim>\<open>in\<close> as it is and the cursors within the buffers. That a run
  does not move \<^verbatim>\<open>inPos\<close> backward is asked in addition.
\<close>

definition xzDecRun_ok :: "('d, 'u) extern \<Rightarrow> bool" where
  "xzDecRun_ok E \<longleftrightarrow>
     (\<forall>d b. buf_ok b \<longrightarrow>
        (case xzDecRun E d b of
           (ret, d', b') \<Rightarrow> inB b' = inB b \<and> inPos b \<le> inPos b' \<and> buf_ok b'))"

text \<open>
  What \<^verbatim>\<open>io.Reader\<close> promises of the upstream: "It returns the number of bytes read
  (0 <= n <= len(p))". A slice keeps its length.
\<close>

definition src_Read_ok :: "('d, 'u) extern \<Rightarrow> bool" where
  "src_Read_ok E \<longleftrightarrow>
     (\<forall>u a. case src_Read E u a of
        ((a', rn, e), u') \<Rightarrow> length a' = length a \<and> 0 \<le> rn \<and> rn \<le> int (length a))"

text \<open>
  The observations of a call of \<^verbatim>\<open>Read\<close>, each with the part of the code that has just
  run: \<open>Called\<close> is the Reader at the call, \<open>Copied\<close> the one after the copy loop,
  \<open>Refilled\<close> after "if needed, read more data from r.r", \<open>Decoded\<close> after \<^verbatim>\<open>decode\<close>, and
  \<open>Saved\<close> after the switch and "save err". \<open>Read_iter\<close> lists the Readers of a turn in
  this order.
\<close>

datatype phase = Called | Copied | Refilled | Decoded | Saved

definition tagged :: "('d, 'u) Reader list \<Rightarrow> (phase \<times> ('d, 'u) Reader) list" where
  "tagged rs = zip [Copied, Refilled, Decoded, Saved] rs"

fun trace_loop ::
  "('d, 'u) extern \<Rightarrow> nat \<Rightarrow> byte list \<Rightarrow> int \<Rightarrow> error option \<Rightarrow> ('d, 'u) Reader \<Rightarrow>
     (phase \<times> ('d, 'u) Reader) list" where
  "trace_loop E 0 p n e r = []"
| "trace_loop E (Suc k) p n e r =
     tagged (fst (Read_iter E p n e r)) @
     (case snd (Read_iter E p n e r) of
        Continue (n', e', p', r') \<Rightarrow> trace_loop E k p' n' e' r'
      | _ \<Rightarrow> [])"

definition Read_trace ::
  "('d, 'u) extern \<Rightarrow> nat \<Rightarrow> ('d, 'u) Reader \<Rightarrow> byte list \<Rightarrow>
     (phase \<times> ('d, 'u) Reader) list" where
  "Read_trace E k r p = (Called, r) # trace_loop E k p 0 (err r) r"

text \<open>
  How the cursors \<^verbatim>\<open>buf.inPos\<close> and \<^verbatim>\<open>r.outPos\<close> move from one observation \<open>x\<close> to the next
  \<open>y\<close>. The copy loop advances \<^verbatim>\<open>r.outPos\<close>. The upstream read sets \<^verbatim>\<open>buf.inPos\<close> to 0 when
  it installs a new input buffer, which it does only if the old one is used up and the
  upstream has not returned \<open>EOF\<close>. \<^verbatim>\<open>decode\<close> advances \<^verbatim>\<open>buf.inPos\<close>, and sets \<^verbatim>\<open>r.outPos\<close> to
  0 when it runs the decoder, which it does only if \<^verbatim>\<open>r.padding\<close> is negative. Nothing
  else moves a cursor.
\<close>

definition moved :: "phase \<times> ('d, 'u) Reader \<Rightarrow> phase \<times> ('d, 'u) Reader \<Rightarrow> bool" where
  "moved x y \<longleftrightarrow>
     (let r = snd x; r' = snd y in
      case fst y of
        Called \<Rightarrow> False
      | Copied \<Rightarrow>
          (fst x = Called \<or> fst x = Saved) \<and>
          inPos (buf r') = inPos (buf r) \<and> rOutPos r \<le> rOutPos r'
      | Refilled \<Rightarrow>
          fst x = Copied \<and> rOutPos r' = rOutPos r \<and>
          (inPos (buf r') = inPos (buf r) \<or>
           inPos (buf r') = 0 \<and> inPos (buf r) = int (length (inB (buf r))) \<and> \<not> rEOF r)
      | Decoded \<Rightarrow>
          fst x = Refilled \<and> inPos (buf r) \<le> inPos (buf r') \<and>
          (rOutPos r' = rOutPos r \<or> rOutPos r' = 0 \<and> sint (padding r) < 0)
      | Saved \<Rightarrow>
          fst x = Decoded \<and> inPos (buf r') = inPos (buf r) \<and> rOutPos r' = rOutPos r)"

subsection \<open>A sample upstream and a sample decoder\<close>

text \<open>
  Concrete values for the parameters, used to run the Reader on concrete inputs. The
  upstream is a script: a list of chunks, each with the error returned along with it;
  one call of its read hands out the next chunk (or as much of it as the array holds),
  and an exhausted script returns no bytes and \<open>EOF\<close>.
\<close>

type_synonym script = "(byte list \<times> error option) list"

definition script_Read ::
  "script \<Rightarrow> byte list \<Rightarrow> (byte list \<times> int \<times> error option) \<times> script" where
  "script_Read u a =
     (case u of
        [] \<Rightarrow> ((a, 0, Some EOF), [])
      | (d, e) # rest \<Rightarrow>
          if length d \<le> length a
          then ((d @ drop (length d) a, int (length d), e), rest)
          else ((take (length a) d, int (length a), None), (drop (length a) d, e) # rest))"

text \<open>
  The sample decoder reads a toy format in place of XZ: a stream is one byte \<open>L > 0\<close>
  followed by \<open>L - 1\<close> bytes other than \<open>0xFF\<close>, which are its plaintext. In one call it
  goes on as far as the input and the output space reach. A stream that starts with a
  zero byte is \<open>xzFormatError\<close>, a byte \<open>0xFF\<close> in a stream is \<open>xzDataError\<close>. As the
  documentation of \<^verbatim>\<open>xzBufError\<close> says, the second call in a row that can neither consume
  nor produce a byte returns \<open>xzBufError\<close>.
\<close>

record toyDec =
  cap :: "32 word"
  todo :: "nat option"
  allowBufError :: bool

function toy_main :: "toyDec \<Rightarrow> xzBuf \<Rightarrow> xzRet \<times> toyDec \<times> xzBuf" where
  "toy_main d b =
     (case todo d of
        None \<Rightarrow>
          if 0 \<le> inPos b \<and> inPos b < int (length (inB b)) then
            (if inB b ! nat (inPos b) = 0 then (xzFormatError, d, b)
             else toy_main (d\<lparr>todo := Some (unat (inB b ! nat (inPos b)) - 1)\<rparr>)
                    (b\<lparr>inPos := inPos b + 1\<rparr>))
          else (xzOK, d, b)
      | Some 0 \<Rightarrow> (xzStreamEnd, d, b)
      | Some (Suc k) \<Rightarrow>
          if 0 \<le> inPos b \<and> inPos b < int (length (inB b)) \<and>
             0 \<le> outPos b \<and> outPos b < int (length (out b)) then
            (if inB b ! nat (inPos b) = 255 then (xzDataError, d, b)
             else toy_main (d\<lparr>todo := Some k\<rparr>)
                    (b\<lparr>inPos := inPos b + 1,
                      out := (out b)[nat (outPos b) := inB b ! nat (inPos b)],
                      outPos := outPos b + 1\<rparr>))
          else (xzOK, d, b))"
  by pat_completeness auto
termination
  by (relation "measure (\<lambda>(d, b). nat (int (length (inB b)) - inPos b))") auto

declare toy_main.simps [simp del]

definition toy_Run :: "toyDec \<Rightarrow> xzBuf \<Rightarrow> xzRet \<times> toyDec \<times> xzBuf" where
  "toy_Run d b =
     (case toy_main d b of
        (ret, d', b') \<Rightarrow>
          if ret = xzOK \<and> inPos b' = inPos b \<and> outPos b' = outPos b then
            (if allowBufError d' then (xzBufError, d', b')
             else (xzOK, d'\<lparr>allowBufError := True\<rparr>, b'))
          else (ret, d'\<lparr>allowBufError := False\<rparr>, b'))"

definition toy :: "(toyDec, script) extern" where
  "toy = \<lparr> xzDecInit = (\<lambda>m. \<lparr>cap = m, todo = None, allowBufError = False\<rparr>),
           xzDecReset = (\<lambda>d. d\<lparr>todo := None, allowBufError := False\<rparr>),
           xzDecRun = toy_Run,
           src_Read = script_Read \<rparr>"

text \<open>The Reader that \<^verbatim>\<open>NewReader(u, 0)\<close> returns for the sample decoder.\<close>

definition toy_reader :: "script \<Rightarrow> (toyDec, script) Reader" where
  "toy_reader u =
     \<lparr> src = u, multistream = True, rEOF = False, dEOF = False, padding = - 1,
       inArr = replicate bufSize 0, rOutPos = 0,
       buf = \<lparr> inB = [], inPos = 0, out = replicate bufSize 0, outPos = 0 \<rparr>,
       dec = \<lparr> cap = DefaultDictMax, todo = None, allowBufError = False \<rparr>,
       err = None \<rparr>"

subsection \<open>Sample Readers\<close>

text \<open>
  The Reader after the first of the two streams \<open>[2, 65]\<close> and \<open>[2, 66]\<close> has been read
  with the multistream flag off.
\<close>

definition finished_reader :: "(toyDec, script) Reader" where
  "finished_reader =
     \<lparr> src = [], multistream = False, rEOF = False, dEOF = True, padding = - 1,
       inArr = [2, 66] @ replicate (bufSize - 2) 0, rOutPos = 1,
       buf = \<lparr> inB = [2, 66], inPos = 0, out = [65] @ replicate (bufSize - 1) 0, outPos = 1 \<rparr>,
       dec = \<lparr> cap = DefaultDictMax, todo = None, allowBufError = False \<rparr>,
       err = None \<rparr>"

text \<open>
  The Reader after a first \<^verbatim>\<open>Read\<close> of two bytes from the stream \<open>[8, 72, 101, 108, 108,
  111, 10, 255]\<close>: the decoder has produced six bytes and then met the corrupt byte.
\<close>

definition corrupt_reader :: "(toyDec, script) Reader" where
  "corrupt_reader =
     \<lparr> src = [], multistream = True, rEOF = False, dEOF = False, padding = - 1,
       inArr = [8, 72, 101, 108, 108, 111, 10, 255] @ replicate (bufSize - 8) 0, rOutPos = 2,
       buf = \<lparr> inB = [8, 72, 101, 108, 108, 111, 10, 255], inPos = 7,
               out = [72, 101, 108, 108, 111, 10] @ replicate (bufSize - 6) 0, outPos = 6 \<rparr>,
       dec = \<lparr> cap = DefaultDictMax, todo = Some 1, allowBufError = False \<rparr>,
       err = Some ErrData \<rparr>"

text \<open>
  The Reader in the middle of the stream \<open>[4, 65, 66, 67]\<close>, of which the upstream has
  handed out the first three bytes; its next answer is an error, and the one after that
  the last byte together with \<open>EOF\<close>. \<open>resumed_reader\<close> is the Reader after that last byte
  has been read.
\<close>

definition midstream_reader :: "(toyDec, script) Reader" where
  "midstream_reader =
     \<lparr> src = [([], Some (ErrOther 7)), ([67], Some EOF)], multistream = True, rEOF = False,
       dEOF = False,
       padding = - 1, inArr = [4, 65, 66] @ replicate (bufSize - 3) 0, rOutPos = 0,
       buf = \<lparr> inB = [4, 65, 66], inPos = 3,
               out = [65, 66] @ replicate (bufSize - 2) 0, outPos = 2 \<rparr>,
       dec = \<lparr> cap = DefaultDictMax, todo = Some 1, allowBufError = False \<rparr>,
       err = None \<rparr>"

definition resumed_reader :: "(toyDec, script) Reader" where
  "resumed_reader =
     \<lparr> src = [], multistream = True, rEOF = True, dEOF = True,
       padding = - 1, inArr = [67, 65, 66] @ replicate (bufSize - 3) 0, rOutPos = 1,
       buf = \<lparr> inB = [67], inPos = 1,
               out = [67, 66] @ replicate (bufSize - 2) 0, outPos = 1 \<rparr>,
       dec = \<lparr> cap = DefaultDictMax, todo = Some 0, allowBufError = False \<rparr>,
       err = None \<rparr>"

text \<open>The Reader after the single stream \<open>[2, 65]\<close> has been read to the end.\<close>

definition drained_reader :: "(toyDec, script) Reader" where
  "drained_reader =
     \<lparr> src = [], multistream = True, rEOF = True, dEOF = True, padding = - 1,
       inArr = [2, 65] @ replicate (bufSize - 2) 0, rOutPos = 1,
       buf = \<lparr> inB = [], inPos = 0, out = [65] @ replicate (bufSize - 1) 0, outPos = 1 \<rparr>,
       dec = \<lparr> cap = DefaultDictMax, todo = Some 0, allowBufError = False \<rparr>,
       err = None \<rparr>"

text \<open>
  The Reader after the first turn of \<^verbatim>\<open>Read\<close> on the streams \<open>[2, 65]\<close> and \<open>[2, 66]\<close> with
  four bytes of padding between them, which the upstream hands out in one piece together
  with \<open>EOF\<close>: the first stream is decoded, the cursor is at the padding.
\<close>

definition padded_reader :: "(toyDec, script) Reader" where
  "padded_reader =
     \<lparr> src = [], multistream = True, rEOF = True, dEOF = False, padding = 0,
       inArr = [2, 65, 0, 0, 0, 0, 2, 66] @ replicate (bufSize - 8) 0, rOutPos = 0,
       buf = \<lparr> inB = [2, 65, 0, 0, 0, 0, 2, 66], inPos = 2,
               out = [65] @ replicate (bufSize - 1) 0, outPos = 1 \<rparr>,
       dec = \<lparr> cap = DefaultDictMax, todo = Some 0, allowBufError = False \<rparr>,
       err = None \<rparr>"

text \<open>
  The streams \<open>[2, 65]\<close> and \<open>[2, 66]\<close>, which the upstream hands out one after the other,
  the second together with \<open>EOF\<close>: \<open>stream_end_reader\<close> is the Reader after the first turn
  of \<^verbatim>\<open>Read\<close>, at the end of the first stream, and \<open>dropped_reader\<close> the Reader when that
  \<^verbatim>\<open>Read\<close> returns. \<open>both_reader\<close> is the Reader after both streams have been read, when
  the upstream returns \<open>EOF\<close> at a call of its own.
\<close>

definition stream_end_reader :: "(toyDec, script) Reader" where
  "stream_end_reader =
     \<lparr> src = [([2, 66], Some EOF)], multistream = True, rEOF = False, dEOF = False,
       padding = 0,
       inArr = [2, 65] @ replicate (bufSize - 2) 0, rOutPos = 0,
       buf = \<lparr> inB = [2, 65], inPos = 2, out = [65] @ replicate (bufSize - 1) 0, outPos = 1 \<rparr>,
       dec = \<lparr> cap = DefaultDictMax, todo = Some 0, allowBufError = False \<rparr>,
       err = None \<rparr>"

definition dropped_reader :: "(toyDec, script) Reader" where
  "dropped_reader =
     \<lparr> src = [], multistream = True, rEOF = True, dEOF = True, padding = - 1,
       inArr = [2, 66] @ replicate (bufSize - 2) 0, rOutPos = 1,
       buf = \<lparr> inB = [2, 66], inPos = 0, out = [65] @ replicate (bufSize - 1) 0, outPos = 1 \<rparr>,
       dec = \<lparr> cap = DefaultDictMax, todo = None, allowBufError = False \<rparr>,
       err = None \<rparr>"

definition both_reader :: "(toyDec, script) Reader" where
  "both_reader =
     \<lparr> src = [], multistream = True, rEOF = True, dEOF = True, padding = - 1,
       inArr = [2, 66] @ replicate (bufSize - 2) 0, rOutPos = 1,
       buf = \<lparr> inB = [], inPos = 0, out = [66] @ replicate (bufSize - 1) 0, outPos = 1 \<rparr>,
       dec = \<lparr> cap = DefaultDictMax, todo = Some 0, allowBufError = False \<rparr>,
       err = None \<rparr>"

text \<open>
  The Readers after the streams \<open>[3, 65, 66]\<close> and \<open>[2, 67]\<close>, handed out in one piece,
  have been read in multistream mode: \<open>cut_reader\<close> when the upstream returns \<open>EOF\<close>
  together with the bytes, \<open>whole_reader\<close> when it returns \<open>EOF\<close> at its next call.
\<close>

definition cut_reader :: "(toyDec, script) Reader" where
  "cut_reader =
     \<lparr> src = [], multistream = True, rEOF = True, dEOF = True, padding = - 1,
       inArr = [3, 65, 66, 2, 67] @ replicate (bufSize - 5) 0, rOutPos = 2,
       buf = \<lparr> inB = [3, 65, 66, 2, 67], inPos = 3,
               out = [65, 66] @ replicate (bufSize - 2) 0, outPos = 2 \<rparr>,
       dec = \<lparr> cap = DefaultDictMax, todo = None, allowBufError = False \<rparr>,
       err = None \<rparr>"

definition whole_reader :: "(toyDec, script) Reader" where
  "whole_reader =
     \<lparr> src = [], multistream = True, rEOF = True, dEOF = True, padding = - 1,
       inArr = [3, 65, 66, 2, 67] @ replicate (bufSize - 5) 0, rOutPos = 1,
       buf = \<lparr> inB = [], inPos = 0, out = [67, 66] @ replicate (bufSize - 2) 0, outPos = 1 \<rparr>,
       dec = \<lparr> cap = DefaultDictMax, todo = Some 0, allowBufError = False \<rparr>,
       err = None \<rparr>"

section \<open>Properties\<close>

subsection \<open>Running the model on concrete inputs\<close>

lemma Read_loop_numeral:
  "Read_loop E (numeral v) p n e r =
     (case snd (Read_iter E p n e r) of
        Panicked \<Rightarrow> Panic
      | Break x \<Rightarrow> Return x
      | Continue (n', e', p', r') \<Rightarrow> Read_loop E (pred_numeral v) p' n' e' r')"
  by (simp add: numeral_eq_Suc)

lemma obs_loop_numeral:
  "obs_loop E (numeral v) p n e r =
     fst (Read_iter E p n e r) @
     (case snd (Read_iter E p n e r) of
        Continue (n', e', p', r') \<Rightarrow> obs_loop E (pred_numeral v) p' n' e' r'
      | _ \<Rightarrow> [])"
  by (simp add: numeral_eq_Suc)

lemma trace_loop_numeral:
  "trace_loop E (numeral v) p n e r =
     tagged (fst (Read_iter E p n e r)) @
     (case snd (Read_iter E p n e r) of
        Continue (n', e', p', r') \<Rightarrow> trace_loop E (pred_numeral v) p' n' e' r'
      | _ \<Rightarrow> [])"
  by (simp add: numeral_eq_Suc)

lemma replicate_update_0:
  "(replicate (numeral k) x)[0 := y] = y # replicate (pred_numeral k) x"
  by (simp add: numeral_eq_Suc)

lemma replicate_update_Suc:
  "(replicate (numeral k) x)[Suc n := y] = x # (replicate (pred_numeral k) x)[n := y]"
  by (simp add: numeral_eq_Suc)

lemma replicate_update_numeral:
  "(replicate (numeral k) x)[numeral j := y] =
     x # (replicate (pred_numeral k) x)[pred_numeral j := y]"
  by (simp add: numeral_eq_Suc)

lemmas run_simps =
  NewReader_def toy_def Read_def Read_iter_def copy_out.simps refill_def script_Read_def
  decode_def toy_Run_def toy_main.simps dispatch_def pad_loop.simps Let_def
  Read_loop_numeral bufSize_def replicate_update_0 replicate_update_Suc
  replicate_update_numeral

subsection \<open>The copy loop\<close>

lemma length_pending:
  "0 \<le> rOutPos r \<Longrightarrow> outPos (buf r) \<le> int (length (out (buf r))) \<Longrightarrow>
   length (pending r) = nat (outPos (buf r) - rOutPos r)"
  by (auto simp: pending_def)

lemma pending_step:
  assumes "0 \<le> rOutPos r" "rOutPos r < outPos (buf r)"
    "outPos (buf r) \<le> int (length (out (buf r)))"
  shows "pending r = out (buf r) ! nat (rOutPos r) # pending (r\<lparr>rOutPos := rOutPos r + 1\<rparr>)"
proof -
  let ?o = "nat (rOutPos r)"
  have lt: "?o < length (out (buf r))" using assms by linarith
  have a: "nat (outPos (buf r) - rOutPos r) = Suc (nat (outPos (buf r) - (rOutPos r + 1)))"
    using assms by linarith
  have b: "nat (rOutPos r + 1) = Suc ?o" using assms by linarith
  show ?thesis
    unfolding pending_def using lt
    by (simp add: a b Cons_nth_drop_Suc [symmetric] del: drop_Suc_Cons)
qed

text \<open>
  The copy loop moves the pending bytes into \<open>p\<close> from index \<open>n\<close> on, as many as fit.
\<close>

lemma copy_out_closed:
  assumes "0 \<le> n" "n \<le> int (length p)" "0 \<le> rOutPos r" "rOutPos r \<le> outPos (buf r)"
    "outPos (buf r) \<le> int (length (out (buf r)))"
  shows "copy_out p n r =
     Some (take (nat n) p @ take (length p - nat n) (pending r) @
             drop (nat n + length (pending r)) p,
           n + int (min (length p - nat n) (length (pending r))),
           r\<lparr>rOutPos := rOutPos r + int (min (length p - nat n) (length (pending r)))\<rparr>)"
  using assms
proof (induction p n r rule: copy_out.induct)
  case (1 p n r)
  show ?case
  proof (cases "rOutPos r < outPos (buf r) \<and> n < int (length p)")
    case False
    then have "length (pending r) = 0 \<or> length p - nat n = 0"
      using "1.prems" by (auto simp: length_pending)
    then show ?thesis
      using False "1.prems" by (subst copy_out.simps) (auto simp: min_def)
  next
    case True
    let ?x = "out (buf r) ! nat (rOutPos r)"
    let ?r = "r\<lparr>rOutPos := rOutPos r + 1\<rparr>"
    have np: "\<not> (n < 0 \<or> rOutPos r < 0 \<or> int (length (out (buf r))) \<le> rOutPos r)"
      using True "1.prems" by auto
    have pend: "pending r = ?x # pending ?r"
      using True "1.prems" by (intro pending_step) auto
    have IH: "copy_out (p[nat n := ?x]) (n + 1) ?r =
       Some (take (nat (n + 1)) (p[nat n := ?x]) @
               take (length (p[nat n := ?x]) - nat (n + 1)) (pending ?r) @
               drop (nat (n + 1) + length (pending ?r)) (p[nat n := ?x]),
             n + 1 + int (min (length (p[nat n := ?x]) - nat (n + 1)) (length (pending ?r))),
             ?r\<lparr>rOutPos := rOutPos ?r +
                  int (min (length (p[nat n := ?x]) - nat (n + 1)) (length (pending ?r)))\<rparr>)"
      using True "1.prems" np by (intro "1.IH") auto
    have n1: "nat (n + 1) = Suc (nat n)" using "1.prems" by linarith
    have lt: "nat n < length p" using True "1.prems" by linarith
    have lists: "take (Suc (nat n)) (p[nat n := ?x]) = take (nat n) p @ [?x]"
      using lt by (simp add: take_Suc_conv_app_nth)
    have lp: "length (pending r) = Suc (length (pending ?r))"
      by (subst pend) simp
    have ld: "length p - nat n = Suc (length p - Suc (nat n))"
      using lt by arith
    have m: "min (length p - nat n) (length (pending r)) =
             Suc (min (length p - Suc (nat n)) (length (pending ?r)))"
      by (simp only: lp ld min_Suc_Suc)
    have tk: "take (length p - nat n) (pending r) =
              ?x # take (length p - Suc (nat n)) (pending ?r)"
      by (subst pend, subst ld) simp
    show ?thesis
      apply (subst copy_out.simps)
      using True np apply (simp add: IH n1 lists m tk)
      apply (simp add: pend)
      done
  qed
qed

text \<open>The copy loop as the first part of a turn of the loop of Read.\<close>

lemma Read_iter_copied:
  assumes "0 \<le> n" "n \<le> int (length p)" "0 \<le> rOutPos r" "rOutPos r \<le> outPos (buf r)"
    "outPos (buf r) \<le> int (length (out (buf r)))"
  shows "Read_iter E p n e r =
     (let m = min (length p - nat n) (length (pending r));
          p1 = take (nat n) p @ take (length p - nat n) (pending r) @
                 drop (nat n + length (pending r)) p;
          n1 = n + int m;
          r1 = r\<lparr>rOutPos := rOutPos r + int m\<rparr>
      in if length p - nat n < length (pending r) then ([r1], Break (n1, None, p1, r1))
         else if e \<noteq> None then ([r1], Break (n1, e, p1, r1))
         else if dEOF r then ([r1], Break (n1, Some EOF, p1, r1))
         else
           (case refill E r1 of
              Panicked \<Rightarrow> ([r1], Panicked)
            | Break (e2, r2) \<Rightarrow> ([r1, r2], Break (n1, e2, p1, r2))
            | Continue r2 \<Rightarrow>
                (case decode E r2 of
                   None \<Rightarrow> ([r1, r2], Panicked)
                 | Some (ret, r3) \<Rightarrow>
                     let (e4, r4) = dispatch ret e r3;
                         r5 = r4\<lparr>err := e4\<rparr>
                     in ([r1, r2, r3, r5], Continue (n1, e4, p1, r5)))))"
proof -
  have len: "length (pending r) = nat (outPos (buf r) - rOutPos r)"
    using assms by (simp add: length_pending)
  have lp1: "length (take (nat n) p @ take (length p - nat n) (pending r) @
                 drop (nat n + length (pending r)) p) = length p"
    using assms by (auto simp: min_def)
  have full: "(rOutPos r + int (min (length p - nat n) (length (pending r))) < outPos (buf r) \<and>
        n + int (min (length p - nat n) (length (pending r))) = int (length p))
        = (length p - nat n < length (pending r))"
    using assms unfolding len by (auto simp: min_def)
  show ?thesis
    unfolding Read_iter_def copy_out_closed [OF assms] Let_def
    by (simp add: lp1 full del: length_append length_take length_drop)
qed


lemma copy_out_post:
  "copy_out p n r = Some (p1, n1, r1) \<Longrightarrow> n \<le> int (length p) \<Longrightarrow>
   length p1 = length p \<and> n \<le> n1 \<and> n1 \<le> int (length p1) \<and> buf r1 = buf r \<and>
   (rOutPos r1 < outPos (buf r1) \<longrightarrow> n1 = int (length p1))"
proof (induction p n r rule: copy_out.induct)
  case (1 p n r)
  show ?case
  proof (cases "rOutPos r < outPos (buf r) \<and> n < int (length p)")
    case False
    with "1.prems" show ?thesis
      by (subst (asm) copy_out.simps) auto
  next
    case True
    with "1.prems"(1) have np: "\<not> (n < 0 \<or> rOutPos r < 0 \<or> int (length (out (buf r))) \<le> rOutPos r)"
      and rec: "copy_out (p[nat n := out (buf r) ! nat (rOutPos r)]) (n + 1)
             (r\<lparr>rOutPos := rOutPos r + 1\<rparr>) = Some (p1, n1, r1)"
      by (subst (asm) copy_out.simps, simp split: if_splits)+
    from "1.IH" [OF True np rec] True show ?thesis
      by simp
  qed
qed

lemma copy_out_drained:
  "\<not> rOutPos r < outPos (buf r) \<Longrightarrow> copy_out p n r = Some (p, n, r)"
  by (subst copy_out.simps) simp

lemma refill_Break:
  "refill E r = Break (e, r') \<Longrightarrow>
   outPos (buf r') = outPos (buf r) \<and> rOutPos r' = rOutPos r \<and> e \<noteq> None \<and> e \<noteq> Some EOF"
  by (auto simp: refill_def Let_def split: if_splits prod.splits)

text \<open>When \<^verbatim>\<open>Read\<close> returns an error, no decoded byte is left pending.\<close>

lemma Read_loop_error_drained:
  "Read_loop E k p n e0 r = Return (n', Some e, p', r') \<Longrightarrow> n \<le> int (length p) \<Longrightarrow>
   \<not> rOutPos r' < outPos (buf r')"
proof (induction k arbitrary: p n e0 r)
  case 0
  then show ?case by simp
next
  case (Suc k)
  show ?case
  proof (cases "copy_out p n r")
    case None
    with Suc.prems show ?thesis by (simp add: Read_iter_def)
  next
    case (Some t)
    obtain p1 n1 r1 where t: "t = (p1, n1, r1)" by (cases t)
    note post = copy_out_post [OF Some [unfolded t] Suc.prems(2)]
    show ?thesis
    proof (cases "snd (Read_iter E p n e0 r)")
      case Panicked
      with Suc.prems show ?thesis by simp
    next
      case (Break x)
      with Suc.prems(1) have x: "x = (n', Some e, p', r')" by simp
      from Break [unfolded x] post show ?thesis
        by (auto simp: Read_iter_def Some t Let_def
            split: if_splits flow.splits option.splits prod.splits dest: refill_Break)
    next
      case (Continue y)
      obtain n2 e2 p2 r2 where y: "y = (n2, e2, p2, r2)" by (cases y)
      from Continue [unfolded y] post have "n2 \<le> int (length p2)"
        by (auto simp: Read_iter_def Some t Let_def
            split: if_splits flow.splits option.splits prod.splits)
      moreover from Suc.prems(1) Continue y
      have "Read_loop E k p2 n2 e2 r2 = Return (n', Some e, p', r')"
        by simp
      ultimately show ?thesis
        by (rule Suc.IH [rotated])
    qed
  qed
qed

text \<open>The copy loop changes no field of the Reader but \<^verbatim>\<open>outPos\<close>.\<close>

lemma copy_out_fields:
  "copy_out p n r = Some (p1, n1, r1) \<Longrightarrow> \<exists>m. r1 = r\<lparr>rOutPos := m\<rparr>"
proof (induction p n r rule: copy_out.induct)
  case (1 p n r)
  show ?case
  proof (cases "rOutPos r < outPos (buf r) \<and> n < int (length p)")
    case False
    with "1.prems" have "r1 = r"
      by (subst (asm) copy_out.simps) auto
    then have "r1 = r\<lparr>rOutPos := rOutPos r\<rparr>"
      by simp
    then show ?thesis
      by blast
  next
    case True
    with "1.prems"(1) have np: "\<not> (n < 0 \<or> rOutPos r < 0 \<or> int (length (out (buf r))) \<le> rOutPos r)"
      and rec: "copy_out (p[nat n := out (buf r) ! nat (rOutPos r)]) (n + 1)
             (r\<lparr>rOutPos := rOutPos r + 1\<rparr>) = Some (p1, n1, r1)"
      by (subst (asm) copy_out.simps, simp split: if_splits)+
    from "1.IH" [OF True np rec]
    obtain m where "r1 = r\<lparr>rOutPos := rOutPos r + 1\<rparr>\<lparr>rOutPos := m\<rparr>"
      by blast
    then have "r1 = r\<lparr>rOutPos := m\<rparr>"
      by simp
    then show ?thesis
      by blast
  qed
qed

text \<open>
  "Save err": a turn of the loop that reaches the switch leaves in \<^verbatim>\<open>r.err\<close> the value of
  \<^verbatim>\<open>err\<close> with which the next turn starts; and the switch turns every code of the decoder
  other than \<^verbatim>\<open>xzOK\<close> and \<^verbatim>\<open>xzStreamEnd\<close> into an error.
\<close>

lemma Read_iter_saves_err:
  "snd (Read_iter E p n e r) = Continue (n', e', p', r') \<Longrightarrow> err r' = e'"
  by (auto simp: Read_iter_def Let_def
      split: if_splits flow.splits option.splits prod.splits)

lemma dispatch_error:
  "ret \<noteq> xzOK \<Longrightarrow> ret \<noteq> xzStreamEnd \<Longrightarrow> \<exists>x. dispatch ret e r = (Some x, r) \<and> x \<noteq> EOF"
  by (cases ret) (simp_all add: dispatch_def)

text \<open>
  Where an error other than \<open>EOF\<close> that \<^verbatim>\<open>Read\<close> returns comes from: either it is in
  \<^verbatim>\<open>r.err\<close>, or the upstream has returned it in the last turn, and then \<^verbatim>\<open>r.err\<close> is nil.
\<close>

lemma Read_loop_error_source:
  "Read_loop E k p n e0 r = Return (n', Some e, p', r') \<Longrightarrow> e0 = err r \<Longrightarrow> e \<noteq> EOF \<Longrightarrow>
   err r' = Some e \<or>
   (err r' = None \<and>
    (\<exists>r1 a rn u. src_Read E (src r1) (inArr r1) = ((a, rn, Some e), u) \<and>
       refill E r1 = Break (Some e, r')))"
proof (induction k arbitrary: p n e0 r)
  case 0
  then show ?case by simp
next
  case (Suc k)
  show ?case
  proof (cases "copy_out p n r")
    case None
    with Suc.prems show ?thesis by (simp add: Read_iter_def)
  next
    case (Some t)
    obtain p1 n1 r1 where t: "t = (p1, n1, r1)" by (cases t)
    from copy_out_fields [OF Some [unfolded t]] have e1: "err r1 = err r"
      by auto
    show ?thesis
    proof (cases "snd (Read_iter E p n e0 r)")
      case Panicked
      with Suc.prems show ?thesis by simp
    next
      case (Break x)
      with Suc.prems(1) have x: "x = (n', Some e, p', r')" by simp
      note B = Break [unfolded x Read_iter_def Some t, simplified]
      show ?thesis
      proof (cases "e0 = None")
        case False
        with B e1 Suc.prems(2,3) show ?thesis
          by (auto split: if_splits)
      next
        case True
        with B Suc.prems(3) have nd: "\<not> dEOF r1"
          by (auto split: if_splits)
        from B True nd have rf: "refill E r1 = Break (Some e, r')"
          by (auto simp: Let_def split: if_splits flow.splits option.splits prod.splits)
        obtain a rn e2 u where up: "src_Read E (src r1) (inArr r1) = ((a, rn, e2), u)"
          by (metis prod.exhaust)
        from rf up have "e2 = Some e" "err r' = err r1"
          by (auto simp: refill_def split: if_splits)
        with up rf e1 True Suc.prems(2) show ?thesis
          by auto
      qed
    next
      case (Continue y)
      obtain n2 e2 p2 r2 where y: "y = (n2, e2, p2, r2)" by (cases y)
      from Read_iter_saves_err [OF Continue [unfolded y]] have "e2 = err r2"
        by simp
      moreover from Suc.prems(1) Continue y
      have "Read_loop E k p2 n2 e2 r2 = Return (n', Some e, p', r')"
        by simp
      ultimately show ?thesis
        using Suc.prems(3) by (intro Suc.IH)
    qed
  qed
qed

subsection \<open>The padding loop and decode\<close>

lemma zero_run_step:
  assumes "0 \<le> inPos b" "inPos b < int (length (inB b))" "inB b ! nat (inPos b) = 0"
  shows "zero_run b = Suc (zero_run (b\<lparr>inPos := inPos b + 1\<rparr>))"
proof -
  have lt: "nat (inPos b) < length (inB b)" using assms by linarith
  have "nat (inPos b + 1) = Suc (nat (inPos b))" using assms by linarith
  then show ?thesis
    using assms(3) by (simp add: zero_run_def Cons_nth_drop_Suc [OF lt, symmetric])
qed

lemma zero_run_stop:
  assumes "0 \<le> inPos b" "inPos b < int (length (inB b))" "inB b ! nat (inPos b) \<noteq> 0"
  shows "zero_run b = 0"
proof -
  have lt: "nat (inPos b) < length (inB b)" using assms by linarith
  show ?thesis
    using assms(3) by (simp add: zero_run_def Cons_nth_drop_Suc [OF lt, symmetric])
qed

lemma zero_run_end: "int (length (inB b)) \<le> inPos b \<Longrightarrow> zero_run b = 0"
  by (simp add: zero_run_def)

lemma zero_run_le: "0 \<le> inPos b \<Longrightarrow> inPos b \<le> int (length (inB b)) \<Longrightarrow>
  inPos b + int (zero_run b) \<le> int (length (inB b))"
proof -
  assume a: "0 \<le> inPos b" "inPos b \<le> int (length (inB b))"
  have "zero_run b \<le> length (drop (nat (inPos b)) (inB b))"
    unfolding zero_run_def by (rule length_takeWhile_le)
  with a show ?thesis by simp
qed

lemma zero_run_nth:
  assumes "0 \<le> inPos b" "inPos b + int (zero_run b) < int (length (inB b))"
  shows "inB b ! nat (inPos b + int (zero_run b)) \<noteq> 0"
proof -
  let ?xs = "drop (nat (inPos b)) (inB b)"
  have lt: "zero_run b < length ?xs" using assms by simp
  have "\<not> (\<lambda>x. x = 0) (?xs ! length (takeWhile (\<lambda>x. x = 0) ?xs))"
    using lt unfolding zero_run_def by (rule nth_length_takeWhile)
  moreover have "?xs ! zero_run b = inB b ! nat (inPos b + int (zero_run b))"
    using assms lt by (simp add: nat_add_distrib)
  ultimately show ?thesis by (simp add: zero_run_def)
qed

text \<open>The padding loop consumes exactly the run of zero bytes at the cursor.\<close>

lemma pad_loop_closed:
  assumes "0 \<le> inPos (buf r)"
  shows "pad_loop r =
     Some (r\<lparr>buf := (buf r)\<lparr>inPos := inPos (buf r) + int (zero_run (buf r))\<rparr>,
             padding := padding r + of_nat (zero_run (buf r))\<rparr>)"
  using assms
proof (induction r rule: pad_loop.induct)
  case (1 r)
  show ?case
  proof (cases "inPos (buf r) < int (length (inB (buf r)))")
    case False
    then have "zero_run (buf r) = 0" by (simp add: zero_run_end)
    with False show ?thesis by (subst pad_loop.simps) simp
  next
    case True
    show ?thesis
    proof (cases "inB (buf r) ! nat (inPos (buf r)) = 0")
      case False
      with True "1.prems" have "zero_run (buf r) = 0" by (simp add: zero_run_stop)
      with True False "1.prems" show ?thesis by (subst pad_loop.simps) simp
    next
      case z: True
      let ?r = "r\<lparr>buf := (buf r)\<lparr>inPos := inPos (buf r) + 1\<rparr>, padding := padding r + 1\<rparr>"
      have np: "\<not> inPos (buf r) < 0" using "1.prems" by simp
      have IH: "pad_loop ?r =
         Some (?r\<lparr>buf := (buf ?r)\<lparr>inPos := inPos (buf ?r) + int (zero_run (buf ?r))\<rparr>,
                 padding := padding ?r + of_nat (zero_run (buf ?r))\<rparr>)"
        using "1.prems" by (intro "1.IH" [OF True np z]) simp
      have zr: "zero_run (buf r) = Suc (zero_run ((buf r)\<lparr>inPos := inPos (buf r) + 1\<rparr>))"
        using True z "1.prems" by (intro zero_run_step) auto
      show ?thesis
        apply (subst pad_loop.simps)
        using True z np apply (simp add: IH zr)
        done
    qed
  qed
qed

text \<open>
  What \<^verbatim>\<open>decode\<close> does while it reads padding: it consumes the zero bytes at the cursor
  and answers by what follows them and by the total length.
\<close>

lemma decode_padding:
  assumes "0 \<le> sint (padding r)" "0 \<le> inPos (buf r)"
  shows "decode E r =
     (let z = zero_run (buf r);
          r1 = r\<lparr>buf := (buf r)\<lparr>inPos := inPos (buf r) + int z\<rparr>,
                 padding := padding r + of_nat z\<rparr>
      in if inPos (buf r) + int z = int (length (inB (buf r))) \<and> rEOF r then
           (if sint (padding r + of_nat z) smod 4 \<noteq> 0 then Some (xzBufError, r1)
            else Some (xzStreamEnd, r1))
         else if inPos (buf r) + int z = int (length (inB (buf r))) then Some (xzOK, r1)
         else
           (if sint (padding r + of_nat z) smod 4 \<noteq> 0 then Some (xzDataError, r1)
            else Some (xzStreamEnd, r1\<lparr>dec := xzDecReset E (dec r)\<rparr>)))"
  using assms by (simp add: decode_def pad_loop_closed Let_def)

subsection \<open>The end of a stream and of its padding\<close>

lemma refill_skip:
  "\<not> (inPos (buf r) = int (length (inB (buf r))) \<and> \<not> rEOF r) \<Longrightarrow> refill E r = Continue r"
  unfolding refill_def by (simp only: if_False)

lemma refill_Continue:
  "refill E r = Continue r' \<Longrightarrow>
   multistream r' = multistream r \<and> dEOF r' = dEOF r \<and> rOutPos r' = rOutPos r \<and>
   outPos (buf r') = outPos (buf r) \<and> out (buf r') = out (buf r) \<and> dec r' = dec r \<and>
   padding r' = padding r \<and> err r' = err r \<and> (0 \<le> inPos (buf r) \<longrightarrow> 0 \<le> inPos (buf r'))"
  by (auto simp: refill_def Let_def split: if_splits prod.splits)

lemma decode_padding_fields:
  assumes "0 \<le> sint (padding r)" "0 \<le> inPos (buf r)" "decode E r = Some (ret, r')"
  shows "multistream r' = multistream r \<and> rEOF r' = rEOF r \<and> dEOF r' = dEOF r \<and>
     rOutPos r' = rOutPos r \<and> outPos (buf r') = outPos (buf r) \<and> out (buf r') = out (buf r) \<and>
     inB (buf r') = inB (buf r) \<and> err r' = err r \<and> src r' = src r \<and> inArr r' = inArr r"
  using assms(3) unfolding decode_padding [OF assms(1,2)] Let_def
  by (auto split: if_splits)

lemma decode_padding_next:
  assumes "0 \<le> sint (padding r)" "0 \<le> inPos (buf r)" "decode E r = Some (xzStreamEnd, r')"
    "\<not> rEOF r"
  shows "r' = r\<lparr>buf := (buf r)\<lparr>inPos := inPos (buf r) + int (zero_run (buf r))\<rparr>,
               padding := padding r + of_nat (zero_run (buf r)),
               dec := xzDecReset E (dec r)\<rparr> \<and>
         inPos (buf r') \<noteq> int (length (inB (buf r')))"
  using assms(3,4) unfolding decode_padding [OF assms(1,2)] Let_def
  by (auto split: if_splits)

text \<open>
  Padding of a proper length that ends at a non-zero byte after the upstream has
  returned \<open>EOF\<close>: \<^verbatim>\<open>Read\<close> sets \<^verbatim>\<open>dEOF\<close> and returns \<open>EOF\<close>, in either mode.
\<close>

lemma Read_loop_padding_end_rEOF:
  assumes cur: "0 \<le> n" "n \<le> int (length p)" "0 \<le> rOutPos r" "rOutPos r \<le> outPos (buf r)"
      "outPos (buf r) \<le> int (length (out (buf r)))"
    and room: "length (pending r) \<le> length p - nat n"
    and mode: "rEOF r" "\<not> dEOF r"
    and pad: "0 \<le> sint (padding r)" "0 \<le> sint (padding r + of_nat (zero_run (buf r)))"
      "sint (padding r + of_nat (zero_run (buf r))) smod 4 = 0"
    and byte: "0 \<le> inPos (buf r)"
      "inPos (buf r) + int (zero_run (buf r)) < int (length (inB (buf r)))"
  shows "Read_loop E (Suc (Suc k)) p n None r =
     Return (n + int (length (pending r)), Some EOF,
             take (nat n) p @ pending r @ drop (nat n + length (pending r)) p,
             r\<lparr>rOutPos := rOutPos r + int (length (pending r)),
               buf := (buf r)\<lparr>inPos := inPos (buf r) + int (zero_run (buf r))\<rparr>,
               dec := xzDecReset E (dec r), padding := - 1, dEOF := True, err := None\<rparr>)"
proof -
  let ?r1 = "r\<lparr>rOutPos := rOutPos r + int (length (pending r))\<rparr>"
  let ?n1 = "n + int (length (pending r))"
  let ?p1 = "take (nat n) p @ pending r @ drop (nat n + length (pending r)) p"
  let ?r5 = "r\<lparr>rOutPos := rOutPos r + int (length (pending r)),
               buf := (buf r)\<lparr>inPos := inPos (buf r) + int (zero_run (buf r))\<rparr>,
               dec := xzDecReset E (dec r), padding := - 1, dEOF := True, err := None\<rparr>"
  have dc: "decode E ?r1 =
      Some (xzStreamEnd,
            ?r1\<lparr>buf := (buf r)\<lparr>inPos := inPos (buf r) + int (zero_run (buf r))\<rparr>,
                 padding := padding r + of_nat (zero_run (buf r)),
                 dec := xzDecReset E (dec r)\<rparr>)"
    using pad byte by (simp add: decode_padding Let_def)
  have turn1: "snd (Read_iter E p n None r) = Continue (?n1, None, ?p1, ?r5)"
    using room mode pad byte
    by (simp add: Read_iter_copied [OF cur] Let_def min_absorb2 refill_skip dc dispatch_def)
  have len: "length (pending r) = nat (outPos (buf r) - rOutPos r)"
    using cur by (simp add: length_pending)
  have "\<not> rOutPos ?r5 < outPos (buf ?r5)"
    using cur by (simp add: len)
  then have turn2: "snd (Read_iter E ?p1 ?n1 None ?r5) = Break (?n1, Some EOF, ?p1, ?r5)"
    by (simp add: Read_iter_def copy_out_drained)
  show ?thesis
    by (simp add: turn1 turn2)
qed

text \<open>
  Padding whose total length is not a multiple of four: \<^verbatim>\<open>Read\<close> returns \<^verbatim>\<open>ErrBuf\<close> when
  the input ends there, and \<^verbatim>\<open>ErrData\<close> when a non-zero byte follows.
\<close>

lemma Read_loop_padding_error:
  assumes cur: "0 \<le> n" "n \<le> int (length p)" "0 \<le> rOutPos r" "rOutPos r \<le> outPos (buf r)"
      "outPos (buf r) \<le> int (length (out (buf r)))"
    and room: "length (pending r) \<le> length p - nat n"
    and mode: "\<not> dEOF r"
      "inPos (buf r) + int (zero_run (buf r)) = int (length (inB (buf r))) \<longrightarrow> rEOF r"
    and pad: "0 \<le> sint (padding r)"
      "sint (padding r + of_nat (zero_run (buf r))) smod 4 \<noteq> 0"
    and byte: "0 \<le> inPos (buf r)"
  shows "Read_loop E (Suc (Suc k)) p n None r =
     Return (n + int (length (pending r)),
             Some (if inPos (buf r) + int (zero_run (buf r)) = int (length (inB (buf r)))
                   then ErrBuf else ErrData),
             take (nat n) p @ pending r @ drop (nat n + length (pending r)) p,
             r\<lparr>rOutPos := rOutPos r + int (length (pending r)),
               buf := (buf r)\<lparr>inPos := inPos (buf r) + int (zero_run (buf r))\<rparr>,
               padding := padding r + of_nat (zero_run (buf r)),
               err := Some (if inPos (buf r) + int (zero_run (buf r)) = int (length (inB (buf r)))
                   then ErrBuf else ErrData)\<rparr>)"
proof -
  let ?r1 = "r\<lparr>rOutPos := rOutPos r + int (length (pending r))\<rparr>"
  let ?n1 = "n + int (length (pending r))"
  let ?p1 = "take (nat n) p @ pending r @ drop (nat n + length (pending r)) p"
  let ?e = "Some (if inPos (buf r) + int (zero_run (buf r)) = int (length (inB (buf r)))
                   then ErrBuf else ErrData)"
  let ?r5 = "r\<lparr>rOutPos := rOutPos r + int (length (pending r)),
               buf := (buf r)\<lparr>inPos := inPos (buf r) + int (zero_run (buf r))\<rparr>,
               padding := padding r + of_nat (zero_run (buf r)), err := ?e\<rparr>"
  have skip: "\<not> (inPos (buf r) = int (length (inB (buf r))) \<and> \<not> rEOF r)"
    using mode(2) zero_run_end [of "buf r"] by auto
  have turn1: "snd (Read_iter E p n None r) = Continue (?n1, ?e, ?p1, ?r5)"
    using room mode pad byte skip
    by (auto simp add: Read_iter_copied [OF cur] Let_def min_absorb2 refill_skip decode_padding
        dispatch_def)
  have len: "length (pending r) = nat (outPos (buf r) - rOutPos r)"
    using cur by (simp add: length_pending)
  have "\<not> rOutPos ?r5 < outPos (buf ?r5)"
    using cur by (simp add: len)
  then have turn2: "snd (Read_iter E ?p1 ?n1 ?e ?r5) = Break (?n1, ?e, ?p1, ?r5)"
    by (simp add: Read_iter_def copy_out_drained)
  show ?thesis
    by (simp add: turn1 turn2)
qed

subsection \<open>The cursors stay within the buffers\<close>

lemma copy_out_frame:
  "copy_out p n r = Some (p1, n1, r1) \<Longrightarrow> 0 \<le> n \<Longrightarrow>
   drop (nat n1) p1 = drop (nat n1) p"
proof (induction p n r rule: copy_out.induct)
  case (1 p n r)
  show ?case
  proof (cases "rOutPos r < outPos (buf r) \<and> n < int (length p)")
    case False
    with "1.prems" show ?thesis
      by (subst (asm) copy_out.simps) auto
  next
    case True
    let ?p = "p[nat n := out (buf r) ! nat (rOutPos r)]"
    from True "1.prems"(1) have np: "\<not> (n < 0 \<or> rOutPos r < 0 \<or> int (length (out (buf r))) \<le> rOutPos r)"
      and rec: "copy_out ?p (n + 1) (r\<lparr>rOutPos := rOutPos r + 1\<rparr>) = Some (p1, n1, r1)"
      by (subst (asm) copy_out.simps, simp split: if_splits)+
    have "n + 1 \<le> int (length ?p)"
      using True by simp
    from copy_out_post [OF rec this] have "n + 1 \<le> n1"
      by simp
    with "1.prems" have "nat n < nat n1"
      by linarith
    then have "drop (nat n1) ?p = drop (nat n1) p"
      by simp
    moreover have "drop (nat n1) p1 = drop (nat n1) ?p"
      using "1.prems" by (intro "1.IH" [OF True np rec]) simp
    ultimately show ?thesis
      by simp
  qed
qed

lemma refill_inv:
  assumes "src_Read_ok E" "cursors_ok r" "slice_ok r"
  shows "refill E r \<noteq> Panicked"
    and "refill E r = Break (e, r') \<Longrightarrow>
         cursors_ok r' \<and> slice_ok r' \<and> moved (Copied, r) (Refilled, r')"
    and "refill E r = Continue r' \<Longrightarrow>
         cursors_ok r' \<and> slice_ok r' \<and> moved (Copied, r) (Refilled, r')"
proof -
  obtain a rn e0 u where up: "src_Read E (src r) (inArr r) = ((a, rn, e0), u)"
    by (metis prod.exhaust)
  note assms(1) [unfolded src_Read_ok_def, THEN spec, THEN spec, of "inArr r" "src r"]
  then have ok: "length a = length (inArr r)" "0 \<le> rn" "rn \<le> int (length a)"
    by (simp_all add: up)
  show "refill E r \<noteq> Panicked"
    using ok by (simp add: refill_def up)
  show "refill E r = Break (e, r') \<Longrightarrow>
        cursors_ok r' \<and> slice_ok r' \<and> moved (Copied, r) (Refilled, r')"
    using ok assms(2,3)
    by (auto simp: refill_def up cursors_ok_def buf_ok_def slice_ok_def moved_def
        split: if_splits)
  show "refill E r = Continue r' \<Longrightarrow>
        cursors_ok r' \<and> slice_ok r' \<and> moved (Copied, r) (Refilled, r')"
    using ok assms(2,3)
    by (auto simp: refill_def up cursors_ok_def buf_ok_def slice_ok_def moved_def
        split: if_splits)
qed

lemma decode_inv:
  assumes "xzDecRun_ok E" "cursors_ok r" "slice_ok r"
  shows "decode E r \<noteq> None"
    and "decode E r = Some (ret, r') \<Longrightarrow>
         cursors_ok r' \<and> slice_ok r' \<and> moved (Refilled, r) (Decoded, r')"
proof -
  have i: "0 \<le> inPos (buf r)" "inPos (buf r) \<le> int (length (inB (buf r)))"
    using assms(2) by (simp_all add: cursors_ok_def buf_ok_def)
  note zl = zero_run_le [OF i]
  obtain rt d b where run: "xzDecRun E (dec r) ((buf r)\<lparr>outPos := 0\<rparr>) = (rt, d, b)"
    by (metis prod.exhaust)
  have "buf_ok ((buf r)\<lparr>outPos := 0\<rparr>)"
    using assms(2) by (simp add: cursors_ok_def buf_ok_def)
  note assms(1) [unfolded xzDecRun_ok_def, THEN spec, THEN spec, THEN mp,
      of "(buf r)\<lparr>outPos := 0\<rparr>" "dec r", OF this]
  then have ok: "inB b = inB (buf r)" "inPos (buf r) \<le> inPos b" "buf_ok b"
    by (simp_all add: run)
  show "decode E r \<noteq> None"
    using i by (cases "0 \<le> sint (padding r)") (simp_all add: decode_padding Let_def, simp add: decode_def run)
  show "decode E r = Some (ret, r') \<Longrightarrow>
        cursors_ok r' \<and> slice_ok r' \<and> moved (Refilled, r) (Decoded, r')"
  proof (cases "0 \<le> sint (padding r)")
    case True
    assume "decode E r = Some (ret, r')"
    then show ?thesis
      using zl assms(2,3) unfolding decode_padding [OF True i(1)] Let_def
      by (auto simp: cursors_ok_def buf_ok_def slice_ok_def moved_def split: if_splits)
  next
    case False
    assume "decode E r = Some (ret, r')"
    then show ?thesis
      using False ok assms(2,3)
      by (auto simp: decode_def run cursors_ok_def buf_ok_def slice_ok_def moved_def)
  qed
qed

lemma dispatch_frame:
  "dispatch ret e r = (e', r') \<Longrightarrow>
   buf r' = buf r \<and> rOutPos r' = rOutPos r \<and> inArr r' = inArr r"
  by (cases ret) (auto simp: dispatch_def split: if_splits)


text \<open>
  One turn of the loop keeps the cursors in range, does not panic, and moves the cursors
  as its parts allow.
\<close>

lemma Read_iter_inv:
  assumes E: "xzDecRun_ok E" "src_Read_ok E" and r: "cursors_ok r" "slice_ok r"
    and n: "0 \<le> n" "n \<le> int (length p)"
    and ph: "ph = Called \<or> ph = Saved"
  shows "snd (Read_iter E p n e r) \<noteq> Panicked"
    and "\<forall>R \<in> set (fst (Read_iter E p n e r)). cursors_ok R"
    and "successively moved ((ph, r) # tagged (fst (Read_iter E p n e r)))"
    and "snd (Read_iter E p n e r) = Break (n', e', p', r') \<or>
         snd (Read_iter E p n e r) = Continue (n', e', p', r') \<Longrightarrow>
         n \<le> n' \<and> n' \<le> int (length p') \<and> length p' = length p \<and>
         drop (nat n') p' = drop (nat n') p \<and> cursors_ok r' \<and> slice_ok r'"
    and "snd (Read_iter E p n e r) = Continue (n', e', p', r') \<Longrightarrow>
         last ((ph, r) # tagged (fst (Read_iter E p n e r))) = (Saved, r')"
    and "map snd (tagged (fst (Read_iter E p n e r))) = fst (Read_iter E p n e r)"
proof -
  have cur: "0 \<le> rOutPos r" "rOutPos r \<le> outPos (buf r)"
    "outPos (buf r) \<le> int (length (out (buf r)))"
    using r(1) by (simp_all add: cursors_ok_def buf_ok_def)
  let ?m = "min (length p - nat n) (length (pending r))"
  let ?r1 = "r\<lparr>rOutPos := rOutPos r + int ?m\<rparr>"
  let ?it = "Read_iter E p n e r"
  obtain p1 n1 where c: "copy_out p n r = Some (p1, n1, ?r1)"
    using copy_out_closed [OF n cur] by simp
  have len: "length (pending r) = nat (outPos (buf r) - rOutPos r)"
    using cur by (simp add: length_pending)
  have r1: "cursors_ok ?r1" "slice_ok ?r1"
    using r cur by (auto simp: cursors_ok_def slice_ok_def len)
  have m1: "moved (ph, r) (Copied, ?r1)"
    using ph by (auto simp: moved_def)
  note post = copy_out_post [OF c n(2)]
  note frame = copy_out_frame [OF c n(1)]
  have good1: "n \<le> n1 \<and> n1 \<le> int (length p1) \<and> length p1 = length p \<and>
      drop (nat n1) p1 = drop (nat n1) p"
    using post frame by simp
  have "snd ?it \<noteq> Panicked \<and>
     (\<forall>R \<in> set (fst ?it). cursors_ok R) \<and>
     successively moved ((ph, r) # tagged (fst ?it)) \<and>
     map snd (tagged (fst ?it)) = fst ?it \<and>
     (\<exists>e1 r1. (snd ?it = Break (n1, e1, p1, r1) \<or>
               snd ?it = Continue (n1, e1, p1, r1) \<and>
               last ((ph, r) # tagged (fst ?it)) = (Saved, r1)) \<and>
        cursors_ok r1 \<and> slice_ok r1)"
  proof (cases "(rOutPos ?r1 < outPos (buf ?r1) \<and> n1 = int (length p1)) \<or> e \<noteq> None \<or> dEOF ?r1")
    case True
    then have "\<exists>e'. ?it = ([?r1], Break (n1, e', p1, ?r1))"
      by (auto simp: Read_iter_def c)
    then show ?thesis
      using r1 m1 by (auto simp: tagged_def)
  next
    case False
    then have it: "?it =
      (case refill E ?r1 of
         Panicked \<Rightarrow> ([?r1], Panicked)
       | Break (e2, r2) \<Rightarrow> ([?r1, r2], Break (n1, e2, p1, r2))
       | Continue r2 \<Rightarrow>
           (case decode E r2 of
              None \<Rightarrow> ([?r1, r2], Panicked)
            | Some (ret, r3) \<Rightarrow>
                let (e4, r4) = dispatch ret e r3;
                    r5 = r4\<lparr>err := e4\<rparr>
                in ([?r1, r2, r3, r5], Continue (n1, e4, p1, r5))))"
      by (auto simp: Read_iter_def c)
    note rf = refill_inv [OF E(2) r1(1,2)]
    show ?thesis
    proof (cases "refill E ?r1")
      case Panicked
      with rf(1) show ?thesis by simp
    next
      case (Break x)
      obtain e2 r2 where x: "x = (e2, r2)" by (cases x)
      from rf(2) [OF Break [unfolded x]] r1 m1 show ?thesis
        by (simp add: it Break x tagged_def)
    next
      case (Continue r2)
      note r2 = rf(3) [OF Continue]
      note dc = decode_inv [OF E(1) conjunct1 [OF r2] conjunct1 [OF conjunct2 [OF r2]]]
      from dc(1) obtain ret r3 where d: "decode E r2 = Some (ret, r3)"
        by (cases "decode E r2") auto
      note r3 = dc(2) [OF d]
      obtain e4 r4 where dp: "dispatch ret e r3 = (e4, r4)"
        by (cases "dispatch ret e r3")
      note fr = dispatch_frame [OF dp]
      have r5: "cursors_ok (r4\<lparr>err := e4\<rparr>)" "slice_ok (r4\<lparr>err := e4\<rparr>)"
        "moved (Decoded, r3) (Saved, r4\<lparr>err := e4\<rparr>)"
        using r3 fr by (simp_all add: cursors_ok_def slice_ok_def moved_def)
      have "?it = ([?r1, r2, r3, r4\<lparr>err := e4\<rparr>], Continue (n1, e4, p1, r4\<lparr>err := e4\<rparr>))"
        by (simp add: it Continue d dp Let_def)
      then show ?thesis
        using r1 m1 r2 r3 r5 by (simp add: tagged_def)
    qed
  qed
  then obtain e1 r1' where all: "snd ?it \<noteq> Panicked"
      "\<forall>R \<in> set (fst ?it). cursors_ok R"
      "successively moved ((ph, r) # tagged (fst ?it))"
      "map snd (tagged (fst ?it)) = fst ?it"
      "snd ?it = Break (n1, e1, p1, r1') \<or>
       snd ?it = Continue (n1, e1, p1, r1') \<and>
       last ((ph, r) # tagged (fst ?it)) = (Saved, r1')"
      "cursors_ok r1'" "slice_ok r1'"
    by blast
  show "snd ?it \<noteq> Panicked"
    "\<forall>R \<in> set (fst ?it). cursors_ok R"
    "successively moved ((ph, r) # tagged (fst ?it))"
    "map snd (tagged (fst ?it)) = fst ?it"
    by (fact all)+
  show "snd ?it = Break (n', e', p', r') \<or> snd ?it = Continue (n', e', p', r') \<Longrightarrow>
         n \<le> n' \<and> n' \<le> int (length p') \<and> length p' = length p \<and>
         drop (nat n') p' = drop (nat n') p \<and> cursors_ok r' \<and> slice_ok r'"
    using all(5,6,7) good1 by auto
  show "snd ?it = Continue (n', e', p', r') \<Longrightarrow>
         last ((ph, r) # tagged (fst ?it)) = (Saved, r')"
    using all(5) by auto
qed

lemma drop_further:
  assumes "drop a xs = drop a ys" "a \<le> b"
  shows "drop b xs = drop b ys"
proof -
  have "drop b xs = drop (b - a) (drop a xs)" "drop b ys = drop (b - a) (drop a ys)"
    using assms(2) by simp_all
  with assms(1) show ?thesis by simp
qed

text \<open>The same for any number of turns of the loop.\<close>

lemma Read_loop_inv:
  assumes E: "xzDecRun_ok E" "src_Read_ok E"
  shows "cursors_ok r \<Longrightarrow> slice_ok r \<Longrightarrow> 0 \<le> n \<Longrightarrow> n \<le> int (length p) \<Longrightarrow>
     ph = Called \<or> ph = Saved \<Longrightarrow>
     Read_loop E k p n e r \<noteq> Panic \<and>
     map snd (trace_loop E k p n e r) = obs_loop E k p n e r \<and>
     (\<forall>R \<in> set (obs_loop E k p n e r). cursors_ok R) \<and>
     successively moved ((ph, r) # trace_loop E k p n e r) \<and>
     (\<forall>n' e' p' r'. Read_loop E k p n e r = Return (n', e', p', r') \<longrightarrow>
        n \<le> n' \<and> n' \<le> int (length p') \<and> length p' = length p \<and>
        drop (nat n') p' = drop (nat n') p \<and> cursors_ok r' \<and> slice_ok r')"
proof (induction k arbitrary: p n e r ph)
  case 0
  then show ?case by simp
next
  case (Suc k)
  note inv = Read_iter_inv [OF E Suc.prems, of e]
  show ?case
  proof (cases "snd (Read_iter E p n e r)")
    case Panicked
    with inv(1) show ?thesis by simp
  next
    case (Break x)
    obtain n' e' p' r' where x: "x = (n', e', p', r')" by (cases x)
    from inv(4) [of n' e' p' r'] Break x
    have "n \<le> n' \<and> n' \<le> int (length p') \<and> length p' = length p \<and>
         drop (nat n') p' = drop (nat n') p \<and> cursors_ok r' \<and> slice_ok r'"
      by simp
    with inv(2,3,6) show ?thesis
      by (simp add: Break x)
  next
    case (Continue y)
    obtain n1 e1 p1 r1 where y: "y = (n1, e1, p1, r1)" by (cases y)
    from inv(4) [of n1 e1 p1 r1] Continue y
    have g: "n \<le> n1" "n1 \<le> int (length p1)" "length p1 = length p"
      "drop (nat n1) p1 = drop (nat n1) p" "cursors_ok r1" "slice_ok r1"
      by simp_all
    from inv(5) [of n1 e1 p1 r1] Continue y
    have lst: "last ((ph, r) # tagged (fst (Read_iter E p n e r))) = (Saved, r1)"
      by simp
    have n1: "0 \<le> n1"
      using g(1) Suc.prems(3) by simp
    have sv: "Saved = Called \<or> Saved = Saved"
      by simp
    note IH = Suc.IH [OF g(5,6) n1 g(2) sv, of e1]
    have tl: "successively moved ((Saved, r1) # trace_loop E k p1 n1 e1 r1)"
      using IH by simp
    have succ: "successively moved
        (((ph, r) # tagged (fst (Read_iter E p n e r))) @ trace_loop E k p1 n1 e1 r1)"
      unfolding successively_append_iff lst
      using inv(3) tl by (auto simp: successively_Cons)
    have ret: "n \<le> n' \<and> n' \<le> int (length p') \<and> length p' = length p \<and>
        drop (nat n') p' = drop (nat n') p \<and> cursors_ok r' \<and> slice_ok r'"
      if "Read_loop E k p1 n1 e1 r1 = Return (n', e', p', r')" for n' e' p' r'
    proof -
      from IH that have h: "n1 \<le> n'" "n' \<le> int (length p')" "length p' = length p1"
        "drop (nat n') p' = drop (nat n') p1" "cursors_ok r'" "slice_ok r'"
        by simp_all
      have "nat n1 \<le> nat n'" using h(1) by simp
      with g(4) have "drop (nat n') p1 = drop (nat n') p"
        by (rule drop_further)
      with h g show ?thesis by simp
    qed
    have A: "Read_loop E (Suc k) p n e r = Read_loop E k p1 n1 e1 r1"
      by (simp add: Continue y)
    have B: "obs_loop E (Suc k) p n e r =
        fst (Read_iter E p n e r) @ obs_loop E k p1 n1 e1 r1"
      by (simp add: Continue y)
    have C: "trace_loop E (Suc k) p n e r =
        tagged (fst (Read_iter E p n e r)) @ trace_loop E k p1 n1 e1 r1"
      by (simp add: Continue y)
    have c0: "map snd (tagged (fst (Read_iter E p n e r)) @ trace_loop E k p1 n1 e1 r1) =
        fst (Read_iter E p n e r) @ obs_loop E k p1 n1 e1 r1"
      using inv(6) IH by simp
    have c1: "Read_loop E k p1 n1 e1 r1 \<noteq> Panic"
      using IH by simp
    have c2: "\<forall>R \<in> set (fst (Read_iter E p n e r) @ obs_loop E k p1 n1 e1 r1). cursors_ok R"
      using inv(2) IH by auto
    have c3: "successively moved
        ((ph, r) # tagged (fst (Read_iter E p n e r)) @ trace_loop E k p1 n1 e1 r1)"
      using succ by simp
    show ?thesis
      unfolding A B C using c0 c1 c2 c3 ret by blast
  qed
qed

subsection \<open>Read need not return\<close>

text \<open>
  While the Reader reads padding and the upstream keeps returning no bytes and no error,
  the loop of \<^verbatim>\<open>Read\<close> goes round for ever: no number of turns suffices.
\<close>

lemma Read_loop_idle_upstream:
  assumes idle: "\<And>u a. src_Read E u a = ((a, 0, None), u)"
  shows "0 \<le> sint (padding r) \<Longrightarrow> \<not> dEOF r \<Longrightarrow> \<not> rEOF r \<Longrightarrow>
     inPos (buf r) = int (length (inB (buf r))) \<Longrightarrow> \<not> rOutPos r < outPos (buf r) \<Longrightarrow>
     Read_loop E k p n None r = OutOfFuel"
proof (induction k arbitrary: r)
  case 0
  then show ?case by simp
next
  case (Suc k)
  let ?r2 = "r\<lparr>buf := (buf r)\<lparr>inB := [], inPos := 0\<rparr>\<rparr>"
  have rf: "refill E r = Continue ?r2"
    using Suc.prems by (simp add: refill_def idle)
  have z: "zero_run ((buf r)\<lparr>inB := [], inPos := 0\<rparr>) = 0"
    by (simp add: zero_run_def)
  have dc: "decode E ?r2 = Some (xzOK, ?r2)"
    using Suc.prems by (simp add: decode_padding z Let_def)
  have turn: "snd (Read_iter E p n None r) = Continue (n, None, p, ?r2\<lparr>err := None\<rparr>)"
    using Suc.prems by (simp add: Read_iter_def copy_out_drained rf dc dispatch_def Let_def)
  have "Read_loop E k p n None (?r2\<lparr>err := None\<rparr>) = OutOfFuel"
    using Suc.prems by (intro Suc.IH) simp_all
  with turn show ?case
    by simp
qed

subsection \<open>The sample decoder and upstream keep their promises\<close>

lemma toy_main_ok:
  "buf_ok b \<Longrightarrow> toy_main d b = (ret, d', b') \<Longrightarrow>
   inB b' = inB b \<and> length (out b') = length (out b) \<and>
   inPos b \<le> inPos b' \<and> outPos b \<le> outPos b' \<and> buf_ok b'"
proof (induction d b rule: toy_main.induct)
  case (1 d b)
  show ?case
  proof (cases "todo d")
    case None
    show ?thesis
    proof (cases "0 \<le> inPos b \<and> inPos b < int (length (inB b)) \<and> inB b ! nat (inPos b) \<noteq> 0")
      case True
      let ?d = "d\<lparr>todo := Some (unat (inB b ! nat (inPos b)) - 1)\<rparr>"
      let ?b = "b\<lparr>inPos := inPos b + 1\<rparr>"
      have rec: "toy_main ?d ?b = (ret, d', b')"
        using "1.prems"(2) None True by (subst (asm) toy_main.simps) simp
      have ok: "buf_ok ?b"
        using "1.prems"(1) True by (simp add: buf_ok_def)
      from "1.IH"(1) [OF None _ _ ok rec] True show ?thesis
        by simp
    next
      case False
      with "1.prems" None show ?thesis
        by (subst (asm) toy_main.simps) (auto split: if_splits)
    qed
  next
    case (Some t)
    show ?thesis
    proof (cases t)
      case 0
      with "1.prems" Some show ?thesis
        by (subst (asm) toy_main.simps) auto
    next
      case (Suc j)
      show ?thesis
      proof (cases "0 \<le> inPos b \<and> inPos b < int (length (inB b)) \<and>
             0 \<le> outPos b \<and> outPos b < int (length (out b)) \<and> inB b ! nat (inPos b) \<noteq> 255")
        case True
        let ?d = "d\<lparr>todo := Some j\<rparr>"
        let ?b = "b\<lparr>inPos := inPos b + 1,
                      out := (out b)[nat (outPos b) := inB b ! nat (inPos b)],
                      outPos := outPos b + 1\<rparr>"
        have rec: "toy_main ?d ?b = (ret, d', b')"
          using "1.prems"(2) Some Suc True by (subst (asm) toy_main.simps) simp
        have ok: "buf_ok ?b"
          using "1.prems"(1) True by (simp add: buf_ok_def)
        from "1.IH"(2) [OF Some Suc _ _ ok rec] True show ?thesis
          by simp
      next
        case False
        with "1.prems" Some Suc show ?thesis
          by (subst (asm) toy_main.simps) (auto split: if_splits)
      qed
    qed
  qed
qed

lemma toy_xzDecRun_ok: "xzDecRun_ok toy"
  unfolding xzDecRun_ok_def
proof (intro allI impI)
  fix d b
  assume ok: "buf_ok b"
  obtain ret d' b' where m: "toy_main d b = (ret, d', b')"
    by (metis prod.exhaust)
  from toy_main_ok [OF ok m]
  show "case xzDecRun toy d b of
      (ret, d', b') \<Rightarrow> inB b' = inB b \<and> inPos b \<le> inPos b' \<and> buf_ok b'"
    by (simp add: toy_def toy_Run_def m)
qed

lemma toy_src_Read_ok: "src_Read_ok toy"
  by (auto simp: src_Read_ok_def toy_def script_Read_def split: list.splits)

subsection \<open>NewReader\<close>

text \<open>
  Claim C7. \<^verbatim>\<open>NewReader(nil, dictMax)\<close> returns \<^verbatim>\<open>ErrNilReader\<close> and no Reader. With an
  upstream \<open>u\<close> it succeeds: for \<^verbatim>\<open>dictMax\<close> zero the decoder is initialised with the cap
  \<^verbatim>\<open>DefaultDictMax\<close>, which is \<open>2 ^ 26\<close> bytes (64 MiB), for \<^verbatim>\<open>dictMax\<close> \<open>d > 0\<close> it is
  initialised with \<open>d\<close>; the multistream flag of the new Reader is true.
\<close>

theorem NewReader_result:
  "NewReader E None dictMax = Inl ErrNilReader \<and>
   unat DefaultDictMax = 64 * 1024 * 1024 \<and>
   (\<exists>r. NewReader E (Some u) 0 = Inr r \<and> dec r = xzDecInit E (2 ^ 26) \<and> multistream r) \<and>
   (0 < d \<longrightarrow>
      (\<exists>r. NewReader E (Some u) d = Inr r \<and> dec r = xzDecInit E d \<and> multistream r))"
  by (auto simp: NewReader_def DefaultDictMax_def)

theorem NewReader_result_witness:
  "NewReader toy None 7 = Inl ErrNilReader \<and>
   (\<exists>r. NewReader toy (Some []) 0 = Inr r \<and> cap (dec r) = 67108864 \<and> multistream r) \<and>
   (0 < (7 :: 32 word) \<and>
      (\<exists>r. NewReader toy (Some []) 7 = Inr r \<and> cap (dec r) = 7 \<and> multistream r))"
  using NewReader_result [of toy 7 "[]" 7] by (auto simp: toy_def)

subsection \<open>Reset\<close>

text \<open>
  On a Reader that has finished reading a stream (\<^verbatim>\<open>dEOF\<close> is true), what \<^verbatim>\<open>Reset\<close> does is
  decided by the flag \<^verbatim>\<open>rEOF\<close> alone: if it is set, \<^verbatim>\<open>Reset\<close> returns \<open>EOF\<close> and changes
  nothing; otherwise it returns nil, clears \<^verbatim>\<open>dEOF\<close> and sets the multistream flag to
  true.
\<close>

lemma Reset_finished:
  assumes "dEOF r"
  shows "(fst (Reset r) = Some EOF \<longleftrightarrow> rEOF r) \<and>
         (rEOF r \<longrightarrow> Reset r = (Some EOF, r)) \<and>
         (\<not> rEOF r \<longrightarrow> Reset r = (None, r\<lparr>dEOF := False, multistream := True\<rparr>))"
  using assms by (simp add: Reset_def)

text \<open>
  Claim C10. On a Reader whose \<^verbatim>\<open>dEOF\<close> is false, \<^verbatim>\<open>Reset\<close> returns nil and leaves every
  field as it was; and in every case the Reader after \<^verbatim>\<open>Reset\<close> differs from the one before
  in at most \<^verbatim>\<open>dEOF\<close> and \<^verbatim>\<open>multistream\<close>.
\<close>

theorem Reset_frame:
  "(\<not> dEOF r \<longrightarrow> Reset r = (None, r)) \<and>
   (\<exists>a b. snd (Reset r) = r\<lparr>dEOF := a, multistream := b\<rparr>) \<and>
   dec (snd (Reset r)) = dec r \<and> buf (snd (Reset r)) = buf r \<and>
   inArr (snd (Reset r)) = inArr r \<and> rOutPos (snd (Reset r)) = rOutPos r \<and>
   padding (snd (Reset r)) = padding r \<and> src (snd (Reset r)) = src r \<and>
   rEOF (snd (Reset r)) = rEOF r \<and> err (snd (Reset r)) = err r"
proof -
  have "r = r\<lparr>dEOF := dEOF r, multistream := multistream r\<rparr>"
    by simp
  then have "\<exists>a b. r = r\<lparr>dEOF := a, multistream := b\<rparr>"
    by blast
  then show ?thesis
    by (auto simp: Reset_def)
qed

theorem Reset_frame_witness:
  "\<not> dEOF (toy_reader []) \<and> Reset (toy_reader []) = (None, toy_reader []) \<and>
   (\<exists>a b. snd (Reset finished_reader) = finished_reader\<lparr>dEOF := a, multistream := b\<rparr>) \<and>
   buf (snd (Reset finished_reader)) = buf finished_reader \<and>
   padding (snd (Reset finished_reader)) = - 1"
proof -
  have "\<not> dEOF (toy_reader [])" "padding finished_reader = - 1"
    by (simp_all add: toy_reader_def finished_reader_def)
  with Reset_frame [of "toy_reader []"] Reset_frame [of finished_reader] show ?thesis
    by simp
qed

subsection \<open>Errors and the bytes decoded before them\<close>

text \<open>
  Below, \<open>Read_loop E k p n e r\<close> is the loop of \<^verbatim>\<open>Read\<close> entered with the slice \<open>p\<close>, the
  count \<open>n\<close>, the local \<^verbatim>\<open>err\<close> equal to \<open>e\<close> and the Reader \<open>r\<close>; a call \<open>Read E k r p\<close>
  is \<open>Read_loop E k p 0 (err r) r\<close>.
\<close>

text \<open>
  Claim C2. Let the decoder have ended with an error \<open>e\<close>, which \<^verbatim>\<open>Read\<close> holds in \<^verbatim>\<open>err\<close>
  (and in the field \<^verbatim>\<open>r.err\<close> for later calls). Then the loop first copies the pending
  decoded bytes to the caller, in order, as far as \<open>p\<close> has room. If pending bytes
  remain it returns a nil error, and they are the first to be copied by the next call;
  it returns \<open>e\<close> only together with the last pending byte. The first equation is the
  rest of the call in which the decoder failed, the second a later call, on any slice
  \<open>q\<close>.
\<close>

theorem Read_delivers_before_error:
  assumes "0 \<le> n" "n \<le> int (length p)" "0 \<le> rOutPos r" "rOutPos r \<le> outPos (buf r)"
    "outPos (buf r) \<le> int (length (out (buf r)))"
  shows "Read_loop E (Suc k) p n (Some e) r =
     Return (n + int (min (length p - nat n) (length (pending r))),
             (if length p - nat n < length (pending r) then None else Some e),
             take (nat n) p @ take (length p - nat n) (pending r) @
               drop (nat n + length (pending r)) p,
             r\<lparr>rOutPos := rOutPos r + int (min (length p - nat n) (length (pending r)))\<rparr>) \<and>
     (err r = Some e \<longrightarrow>
        Read E (Suc k) r q =
          Return (int (min (length q) (length (pending r))),
                  (if length q < length (pending r) then None else Some e),
                  take (length q) (pending r) @ drop (length (pending r)) q,
                  r\<lparr>rOutPos := rOutPos r + int (min (length q) (length (pending r)))\<rparr>))"
proof -
  have q: "(0::int) \<le> 0" "0 \<le> int (length q)"
    by simp_all
  show ?thesis
    by (simp add: Read_def Read_iter_copied [OF assms] Read_iter_copied [OF q assms(3-5)] Let_def)
qed

theorem Read_delivers_before_error_witness:
  "Read toy 5 (toy_reader [([8, 72, 101, 108, 108, 111, 10, 255], None)]) [0, 0] =
     Return (2, None, [72, 101], corrupt_reader) \<and>
   err corrupt_reader = Some ErrData \<and>
   pending corrupt_reader = [108, 108, 111, 10] \<and>
   Read toy (Suc 0) corrupt_reader [0, 0] =
     Return (2, None, [108, 108], corrupt_reader\<lparr>rOutPos := 4\<rparr>) \<and>
   Read toy (Suc 0) (corrupt_reader\<lparr>rOutPos := 4\<rparr>) [0, 0] =
     Return (2, Some ErrData, [111, 10], corrupt_reader\<lparr>rOutPos := 6\<rparr>)"
proof -
  let ?r = "corrupt_reader"
  let ?r' = "corrupt_reader\<lparr>rOutPos := 4\<rparr>"
  have first: "Read toy 5 (toy_reader [([8, 72, 101, 108, 108, 111, 10, 255], None)]) [0, 0] =
      Return (2, None, [72, 101], corrupt_reader)"
    by (simp add: run_simps toy_reader_def corrupt_reader_def)
  have pend: "pending ?r = [108, 108, 111, 10]" "pending ?r' = [111, 10]"
    by (simp_all add: pending_def corrupt_reader_def bufSize_def)
  have e: "err ?r = Some ErrData" "err ?r' = Some ErrData"
    by (simp_all add: corrupt_reader_def)
  have cur: "(0::int) \<le> 0" "0 \<le> int (length [0, 0 :: byte])" "0 \<le> rOutPos ?r"
    "rOutPos ?r \<le> outPos (buf ?r)" "outPos (buf ?r) \<le> int (length (out (buf ?r)))"
    by (simp_all add: corrupt_reader_def bufSize_def)
  have cur': "(0::int) \<le> 0" "0 \<le> int (length [0, 0 :: byte])" "0 \<le> rOutPos ?r'"
    "rOutPos ?r' \<le> outPos (buf ?r')" "outPos (buf ?r') \<le> int (length (out (buf ?r')))"
    by (simp_all add: corrupt_reader_def bufSize_def)
  have "Read toy (Suc 0) ?r [0, 0] = Return (2, None, [108, 108], ?r')"
    using Read_delivers_before_error [OF cur, of toy 0 ErrData "[0, 0]", THEN conjunct2] e(1)
    by (simp add: pend) (simp add: corrupt_reader_def)
  moreover have "Read toy (Suc 0) ?r' [0, 0] =
      Return (2, Some ErrData, [111, 10], corrupt_reader\<lparr>rOutPos := 6\<rparr>)"
    using Read_delivers_before_error [OF cur', of toy 0 ErrData "[0, 0]", THEN conjunct2] e(2)
    by (simp add: pend)
  ultimately show ?thesis
    using first pend e by simp
qed

text \<open>
  Claim C1 does not hold for an error of the upstream: \<^verbatim>\<open>Read\<close> leaves the loop before
  "save err", and the next call asks the upstream again. Here the upstream first answers
  with an error and then hands out the stream \<open>[2, 65]\<close>: the first \<^verbatim>\<open>Read\<close> returns that
  error, the second returns one byte and \<open>EOF\<close>.
\<close>

theorem Read_upstream_error_not_sticky:
  "Read toy 5 (toy_reader [([], Some (ErrOther 7)), ([2, 65], None)]) [0, 0, 0, 0] =
     Return (0, Some (ErrOther 7), [0, 0, 0, 0], toy_reader [([2, 65], None)]) \<and>
   Read toy 5 (toy_reader [([2, 65], None)]) [0, 0, 0, 0] =
     Return (1, Some EOF, [65, 0, 0, 0], drained_reader)"
  by (simp add: run_simps toy_reader_def drained_reader_def)

text \<open>
  Claim C1, amended. Once a call of \<^verbatim>\<open>Read\<close> has returned an error \<open>e\<close> other than \<open>EOF\<close>,
  one of two things holds. Either the Reader has recorded \<open>e\<close> in \<^verbatim>\<open>r.err\<close>, and then every
  later call returns zero bytes and \<open>e\<close> and leaves the Reader and the caller's slice as
  they are. Or \<open>e\<close> is what the upstream's \<^verbatim>\<open>Read\<close> has returned in the last turn of that
  call, where "if needed, read more data from r.r" left the loop with it: then \<^verbatim>\<open>r.err\<close>
  is nil and nothing is recorded. So an error that \<^verbatim>\<open>Read\<close> returns is sticky unless the
  upstream has returned that very error in the same call; the errors that the switch
  makes of the decoder's codes are put into \<^verbatim>\<open>r.err\<close> by "save err" at the end of the
  turn (\<open>dispatch_error\<close>, \<open>Read_iter_saves_err\<close>).
\<close>

theorem Read_recorded_error_sticky:
  assumes "Read E k r p = Return (n, Some e, p', r')" and "e \<noteq> EOF"
  shows "(err r' = Some e \<and> Read E (Suc j) r' q = Return (0, Some e, q, r')) \<or>
         (err r' = None \<and>
          (\<exists>r1 a rn u. src_Read E (src r1) (inArr r1) = ((a, rn, Some e), u) \<and>
             refill E r1 = Break (Some e, r')))"
proof -
  from assms(1) have drained: "\<not> rOutPos r' < outPos (buf r')"
    unfolding Read_def by (rule Read_loop_error_drained) simp
  have "Read E (Suc j) r' q = Return (0, Some e, q, r')" if "err r' = Some e"
    using drained that by (simp add: Read_def Read_iter_def copy_out_drained)
  with Read_loop_error_source [OF assms(1) [unfolded Read_def] refl assms(2)]
  show ?thesis
    by blast
qed

theorem Read_recorded_error_sticky_witness:
  "Read toy 5 (toy_reader [([8, 72, 101, 108, 108, 111, 10, 255], None)]) [0, 0, 0, 0, 0, 0] =
     Return (6, Some ErrData, [72, 101, 108, 108, 111, 10], corrupt_reader\<lparr>rOutPos := 6\<rparr>) \<and>
   err (corrupt_reader\<lparr>rOutPos := 6\<rparr>) = Some ErrData \<and>
   Read toy 1 (corrupt_reader\<lparr>rOutPos := 6\<rparr>) [0, 0, 0] =
     Return (0, Some ErrData, [0, 0, 0], corrupt_reader\<lparr>rOutPos := 6\<rparr>)"
proof -
  have run: "Read toy 5 (toy_reader [([8, 72, 101, 108, 108, 111, 10, 255], None)])
      [0, 0, 0, 0, 0, 0] =
      Return (6, Some ErrData, [72, 101, 108, 108, 111, 10], corrupt_reader\<lparr>rOutPos := 6\<rparr>)"
    by (simp add: run_simps toy_reader_def corrupt_reader_def)
  have neq: "ErrData \<noteq> EOF"
    by simp
  have e: "err (corrupt_reader\<lparr>rOutPos := 6\<rparr>) = Some ErrData"
    by (simp add: corrupt_reader_def)
  from Read_recorded_error_sticky [OF run neq, of 0 "[0, 0, 0]"] e run show ?thesis
    by (simp del: Read_loop.simps)
qed

text \<open>
  Claim C8 does not hold where it says that \<^verbatim>\<open>Read\<close> treats an error of the upstream as
  fatal: the error ends the call, but the Reader keeps no trace of it, and the next call
  reads on. Here the upstream hands out the first three bytes of the stream
  \<open>[4, 65, 66, 67]\<close>, then answers with an error, then hands out the last byte together
  with \<open>EOF\<close>: the first \<^verbatim>\<open>Read\<close> returns two bytes and the error, the second returns the
  third byte and \<open>EOF\<close>.
\<close>

theorem Read_goes_on_after_upstream_error:
  "Read toy 5 (toy_reader [([4, 65, 66], None), ([], Some (ErrOther 7)), ([67], Some EOF)])
     [0, 0, 0, 0] =
     Return (2, Some (ErrOther 7), [65, 66, 0, 0],
             midstream_reader\<lparr>rOutPos := 2, src := [([67], Some EOF)]\<rparr>) \<and>
   Read toy 5 (midstream_reader\<lparr>rOutPos := 2, src := [([67], Some EOF)]\<rparr>) [0, 0, 0, 0] =
     Return (1, Some EOF, [67, 0, 0, 0], resumed_reader)"
  by (simp add: run_simps toy_reader_def midstream_reader_def resumed_reader_def)

text \<open>
  Claim C8, amended. When the loop of \<^verbatim>\<open>Read\<close> needs input and the upstream returns an
  error \<open>e\<close> other than \<open>EOF\<close>, \<^verbatim>\<open>Read\<close> returns at once with that very \<open>e\<close>; the bytes
  counted in \<open>n\<close> before and all pending decoded bytes are in the caller's slice. (The
  pending bytes fit: otherwise \<^verbatim>\<open>Read\<close> returns them first and does not call the upstream.)
  The first equation is the loop at any turn, the second a call of \<^verbatim>\<open>Read\<close> that meets
  the error in its first turn. The error is not fatal to the Reader, which does not
  record it: by the third equation the next call of \<^verbatim>\<open>Read\<close>, if the upstream now answers
  without an error, passes the new input to \<^verbatim>\<open>decode\<close> and goes on from there.
\<close>

theorem Read_upstream_error:
  assumes "0 \<le> n" "n \<le> int (length p)" "0 \<le> rOutPos r" "rOutPos r \<le> outPos (buf r)"
    "outPos (buf r) \<le> int (length (out (buf r)))"
    and room: "length (pending r) \<le> length p - nat n"
    and need: "\<not> dEOF r" "inPos (buf r) = int (length (inB (buf r)))" "\<not> rEOF r"
    and up: "src_Read E (src r) (inArr r) = ((a, rn, Some e), u)" "e \<noteq> EOF"
  shows "Read_loop E (Suc k) p n None r =
     Return (n + int (length (pending r)), Some e,
             take (nat n) p @ pending r @ drop (nat n + length (pending r)) p,
             r\<lparr>rOutPos := rOutPos r + int (length (pending r)), src := u, inArr := a,
               buf := (buf r)\<lparr>inB := take (length (inB (buf r))) a\<rparr>\<rparr>) \<and>
     (err r = None \<and> length (pending r) \<le> length q \<longrightarrow>
        Read E (Suc k) r q =
          Return (int (length (pending r)), Some e, pending r @ drop (length (pending r)) q,
             r\<lparr>rOutPos := rOutPos r + int (length (pending r)), src := u, inArr := a,
               buf := (buf r)\<lparr>inB := take (length (inB (buf r))) a\<rparr>\<rparr>)) \<and>
     (err r = None \<and> length (inB (buf r)) \<le> length a \<and>
      src_Read E u a = ((a', rn', e'), u') \<and> (e' = None \<or> e' = Some EOF) \<and>
      0 \<le> rn' \<and> rn' \<le> int (length a') \<longrightarrow>
        Read E (Suc j)
          (r\<lparr>rOutPos := rOutPos r + int (length (pending r)), src := u, inArr := a,
               buf := (buf r)\<lparr>inB := take (length (inB (buf r))) a\<rparr>\<rparr>) q =
          (case decode E
                  (r\<lparr>rOutPos := rOutPos r + int (length (pending r)), src := u', inArr := a',
                     rEOF := (e' = Some EOF),
                     buf := (buf r)\<lparr>inB := take (nat rn') a', inPos := 0\<rparr>\<rparr>) of
             None \<Rightarrow> Panic
           | Some (ret, r3) \<Rightarrow>
               Read_loop E j q 0 (fst (dispatch ret None r3))
                 ((snd (dispatch ret None r3))\<lparr>err := fst (dispatch ret None r3)\<rparr>)))"
proof -
  have q: "(0::int) \<le> 0" "0 \<le> int (length q)"
    by simp_all
  let ?R = "r\<lparr>rOutPos := rOutPos r + int (length (pending r)), src := u, inArr := a,
               buf := (buf r)\<lparr>inB := take (length (inB (buf r))) a\<rparr>\<rparr>"
  have len: "length (pending r) = nat (outPos (buf r) - rOutPos r)"
    using assms(3-5) by (simp add: length_pending)
  have drained: "\<not> rOutPos ?R < outPos (buf ?R)"
    using assms(3-5) by (simp add: len)
  have A: "Read_loop E (Suc k) p n None r =
     Return (n + int (length (pending r)), Some e,
             take (nat n) p @ pending r @ drop (nat n + length (pending r)) p, ?R)"
    using room need up
    by (simp add: Read_iter_copied [OF assms(1-5)] Let_def refill_def min_absorb2)
  have B: "err r = None \<and> length (pending r) \<le> length q \<longrightarrow>
        Read E (Suc k) r q =
          Return (int (length (pending r)), Some e, pending r @ drop (length (pending r)) q, ?R)"
    using room need up
    by (simp add: Read_def Read_iter_copied [OF q assms(3-5)] Let_def refill_def min_absorb2)
  have C: "Read E (Suc j) ?R q =
          (case decode E
                  (r\<lparr>rOutPos := rOutPos r + int (length (pending r)), src := u', inArr := a',
                     rEOF := (e' = Some EOF),
                     buf := (buf r)\<lparr>inB := take (nat rn') a', inPos := 0\<rparr>\<rparr>) of
             None \<Rightarrow> Panic
           | Some (ret, r3) \<Rightarrow>
               Read_loop E j q 0 (fst (dispatch ret None r3))
                 ((snd (dispatch ret None r3))\<lparr>err := fst (dispatch ret None r3)\<rparr>))"
    if h: "err r = None" "length (inB (buf r)) \<le> length a"
      "src_Read E u a = ((a', rn', e'), u')" "e' = None \<or> e' = Some EOF"
      "0 \<le> rn'" "rn' \<le> int (length a')"
  proof -
    have rf: "refill E ?R =
        Continue (r\<lparr>rOutPos := rOutPos r + int (length (pending r)), src := u', inArr := a',
                    rEOF := (e' = Some EOF),
                    buf := (buf r)\<lparr>inB := take (nat rn') a', inPos := 0\<rparr>\<rparr>)"
      using h need by (auto simp add: refill_def min_absorb1)
    show ?thesis
      using drained h(1) need(1)
      by (simp add: Read_def Read_iter_def copy_out_drained rf Let_def
          split: option.splits prod.splits)
  qed
  show ?thesis
    using A B C by blast
qed

theorem Read_upstream_error_witness:
  "snd (Read_iter toy [0, 0, 0, 0] 0 None
          (toy_reader [([4, 65, 66], None), ([], Some (ErrOther 7)), ([67], Some EOF)])) =
     Continue (0, None, [0, 0, 0, 0], midstream_reader) \<and>
   pending midstream_reader = [65, 66] \<and>
   Read toy (Suc 0) midstream_reader [0, 0, 0, 0] =
     Return (2, Some (ErrOther 7), [65, 66, 0, 0],
             midstream_reader\<lparr>rOutPos := 2, src := [([67], Some EOF)]\<rparr>) \<and>
   err (midstream_reader\<lparr>rOutPos := 2, src := [([67], Some EOF)]\<rparr>) = None \<and>
   Read toy (Suc 2) (midstream_reader\<lparr>rOutPos := 2, src := [([67], Some EOF)]\<rparr>) [0, 0, 0, 0] =
     Return (1, Some EOF, [67, 0, 0, 0], resumed_reader)"
proof -
  let ?r = "midstream_reader"
  let ?R = "midstream_reader\<lparr>rOutPos := 2, src := [([67], Some EOF)]\<rparr>"
  have turn: "snd (Read_iter toy [0, 0, 0, 0] 0 None
          (toy_reader [([4, 65, 66], None), ([], Some (ErrOther 7)), ([67], Some EOF)])) =
      Continue (0, None, [0, 0, 0, 0], midstream_reader)"
    by (simp add: run_simps toy_reader_def midstream_reader_def)
  have pend: "pending ?r = [65, 66]"
    by (simp add: pending_def midstream_reader_def bufSize_def)
  have cur: "(0::int) \<le> 0" "0 \<le> int (length [0, 0, 0, 0 :: byte])" "0 \<le> rOutPos ?r"
    "rOutPos ?r \<le> outPos (buf ?r)" "outPos (buf ?r) \<le> int (length (out (buf ?r)))"
    "length (pending ?r) \<le> length [0, 0, 0, 0 :: byte] - nat 0"
    "\<not> dEOF ?r" "inPos (buf ?r) = int (length (inB (buf ?r)))" "\<not> rEOF ?r"
    by (simp_all add: pend) (simp_all add: midstream_reader_def bufSize_def)
  have up: "src_Read toy (src ?r) (inArr ?r) =
      ((inArr ?r, 0, Some (ErrOther 7)), [([67], Some EOF)])"
    "ErrOther 7 \<noteq> EOF"
    by (simp_all add: toy_def script_Read_def midstream_reader_def)
  have again: "src_Read toy [([67], Some EOF)] (inArr ?r) =
      (([67, 65, 66] @ replicate (bufSize - 3) 0, 1, Some EOF), [])"
    by (simp add: toy_def script_Read_def midstream_reader_def bufSize_def)
  have e: "err ?r = None" "err ?R = None"
    by (simp_all add: midstream_reader_def)
  have same: "?r\<lparr>rOutPos := rOutPos ?r + int (length (pending ?r)), src := [([67], Some EOF)],
        inArr := inArr ?r,
        buf := (buf ?r)\<lparr>inB := take (length (inB (buf ?r))) (inArr ?r)\<rparr>\<rparr> = ?R"
    by (simp add: pend) (simp add: midstream_reader_def)
  note inst = Read_upstream_error [OF cur up, of 0 "[0, 0, 0, 0]"
      "[67, 65, 66] @ replicate (bufSize - 3) 0" 1 "Some EOF" "[]" 2, unfolded same]
  have first: "Read toy (Suc 0) ?r [0, 0, 0, 0] =
      Return (2, Some (ErrOther 7), [65, 66, 0, 0], ?R)"
    using inst [THEN conjunct2, THEN conjunct1] e(1)
    by (simp add: pend)
  have hyp: "err ?r = None \<and> length (inB (buf ?r)) \<le> length (inArr ?r) \<and>
      src_Read toy [([67], Some EOF)] (inArr ?r) =
        (([67, 65, 66] @ replicate (bufSize - 3) 0, 1, Some EOF), []) \<and>
      (Some EOF = None \<or> Some EOF = Some EOF) \<and> (0::int) \<le> 1 \<and>
      1 \<le> int (length ([67, 65, 66] @ replicate (bufSize - 3) 0 :: byte list))"
    using again by (simp add: midstream_reader_def bufSize_def)
  note eq = inst [THEN conjunct2, THEN conjunct2, THEN mp, OF hyp]
  have "Read toy (Suc 2) ?R [0, 0, 0, 0] = Return (1, Some EOF, [67, 0, 0, 0], resumed_reader)"
    unfolding eq
    by (simp add: pend)
       (simp add: run_simps midstream_reader_def resumed_reader_def signed_modulo_int_def)
  with turn pend first e show ?thesis
    by simp
qed

subsection \<open>Stream padding and the next stream\<close>

text \<open>
  Claim C4, where the code departs from it. The Reader is in multistream mode and reads
  padding; the upstream has already returned \<open>EOF\<close> (together with its last bytes), and
  in the input buffer a non-zero byte follows a run of padding whose total length is a
  multiple of four. The claim takes that byte for the start of the next stream. \<^verbatim>\<open>Read\<close>
  instead sets \<^verbatim>\<open>dEOF\<close> and returns \<open>EOF\<close>, whatever the decoder is: the byte, still in
  the buffer, is never passed to \<^verbatim>\<open>xzDecRun\<close>.
\<close>

theorem Read_padding_end_with_rEOF:
  assumes "0 \<le> n" "n \<le> int (length p)" "0 \<le> rOutPos r" "rOutPos r \<le> outPos (buf r)"
      "outPos (buf r) \<le> int (length (out (buf r)))"
    and "length (pending r) \<le> length p - nat n"
    and "multistream r" "rEOF r" "\<not> dEOF r"
    and "0 \<le> sint (padding r)" "0 \<le> sint (padding r + of_nat (zero_run (buf r)))"
      "sint (padding r + of_nat (zero_run (buf r))) smod 4 = 0"
    and "0 \<le> inPos (buf r)"
      "inPos (buf r) + int (zero_run (buf r)) < int (length (inB (buf r)))"
  shows "Read_loop E (Suc (Suc k)) p n None r =
     Return (n + int (length (pending r)), Some EOF,
             take (nat n) p @ pending r @ drop (nat n + length (pending r)) p,
             r\<lparr>rOutPos := rOutPos r + int (length (pending r)),
               buf := (buf r)\<lparr>inPos := inPos (buf r) + int (zero_run (buf r))\<rparr>,
               dec := xzDecReset E (dec r), padding := - 1, dEOF := True, err := None\<rparr>) \<and>
     inB (buf r) ! nat (inPos (buf r) + int (zero_run (buf r))) \<noteq> 0"
  using Read_loop_padding_end_rEOF [OF assms(1-6,8-14)] zero_run_nth [OF assms(13,14)]
  by simp

theorem Read_padding_end_with_rEOF_witness:
  "snd (Read_iter toy [0, 0, 0, 0] 0 None
          (toy_reader [([2, 65, 0, 0, 0, 0, 2, 66], Some EOF)])) =
     Continue (0, None, [0, 0, 0, 0], padded_reader) \<and>
   zero_run (buf padded_reader) = 4 \<and>
   Read toy 2 padded_reader [0, 0, 0, 0] =
     Return (1, Some EOF, [65, 0, 0, 0],
             padded_reader\<lparr>rOutPos := 1, buf := (buf padded_reader)\<lparr>inPos := 6\<rparr>,
               dec := \<lparr>cap = DefaultDictMax, todo = None, allowBufError = False\<rparr>,
               padding := - 1, dEOF := True\<rparr>) \<and>
   inB (buf padded_reader) ! 6 = 2"
proof -
  have turn: "snd (Read_iter toy [0, 0, 0, 0] 0 None
          (toy_reader [([2, 65, 0, 0, 0, 0, 2, 66], Some EOF)])) =
      Continue (0, None, [0, 0, 0, 0], padded_reader)"
    by (simp add: run_simps toy_reader_def padded_reader_def)
  have z: "zero_run (buf padded_reader) = 4"
    by (simp add: zero_run_def padded_reader_def)
  have pend: "pending padded_reader = [65]"
    by (simp add: pending_def padded_reader_def bufSize_def)
  have "Read toy 2 padded_reader [0, 0, 0, 0] =
     Return (1, Some EOF, [65, 0, 0, 0],
             padded_reader\<lparr>rOutPos := 1, buf := (buf padded_reader)\<lparr>inPos := 6\<rparr>,
               dec := \<lparr>cap = DefaultDictMax, todo = None, allowBufError = False\<rparr>,
               padding := - 1, dEOF := True\<rparr>)"
    using Read_padding_end_with_rEOF [of 0 "[0, 0, 0, 0]" padded_reader toy 0]
    by (simp add: z pend Read_def numeral_2_eq_2)
       (simp add: padded_reader_def bufSize_def toy_def signed_modulo_int_def)
  moreover have "inB (buf padded_reader) ! 6 = 2"
    by (simp add: padded_reader_def)
  ultimately show ?thesis
    using turn z by simp
qed

text \<open>
  Claim C3, where the code departs from it. Two streams follow each other in the input,
  and the upstream hands both out in one piece together with \<open>EOF\<close>, as an \<^verbatim>\<open>io.Reader\<close>
  may. The decoder, whatever it is, decodes the first stream in its first call: it
  consumes \<open>i\<close> bytes, produces \<open>m\<close> bytes and returns \<open>xzStreamEnd\<close>; the next byte is not
  zero, so the second stream starts there. \<^verbatim>\<open>Read\<close> on the new Reader returns the
  plaintext of the first stream and \<open>EOF\<close>; the second stream stays in the buffer
  (\<open>inPos = i\<close>, less than the length of \<^verbatim>\<open>in\<close>), and \<^verbatim>\<open>dEOF\<close> is set.
\<close>

theorem Read_concatenation_cut:
  assumes new: "NewReader E (Some u) 0 = Inr r"
    and up: "src_Read E u (replicate bufSize 0) = ((a, rn, Some EOF), u')"
      "0 \<le> rn" "rn \<le> int (length a)"
    and run: "xzDecRun E (xzDecInit E DefaultDictMax)
        \<lparr>inB = take (nat rn) a, inPos = 0, out = replicate bufSize 0, outPos = 0\<rparr> =
        (xzStreamEnd, d, \<lparr>inB = take (nat rn) a, inPos = i, out = o', outPos = m\<rparr>)"
    and nxt: "0 \<le> i" "i < rn" "a ! nat i \<noteq> 0"
    and outp: "0 \<le> m" "m \<le> int (length o')" "nat m \<le> length p"
  shows "Read E (Suc (Suc (Suc k))) r p =
     Return (m, Some EOF, take (nat m) o' @ drop (nat m) p,
       \<lparr> src = u', multistream = True, rEOF = True, dEOF = True, padding = - 1,
         inArr = a, rOutPos = m,
         buf = \<lparr>inB = take (nat rn) a, inPos = i, out = o', outPos = m\<rparr>,
         dec = xzDecReset E d, err = None \<rparr>)"
proof -
  let ?b = "\<lparr>inB = take (nat rn) a, inPos = i, out = o', outPos = m\<rparr>"
  let ?r5 = "\<lparr> src = u', multistream = True, rEOF = True, dEOF = False, padding = 0,
         inArr = a, rOutPos = 0, buf = ?b, dec = d, err = None \<rparr>"
  have r: "r = \<lparr> src = u, multistream = True, rEOF = False, dEOF = False, padding = - 1,
         inArr = replicate bufSize 0, rOutPos = 0,
         buf = \<lparr>inB = [], inPos = 0, out = replicate bufSize 0, outPos = 0\<rparr>,
         dec = xzDecInit E DefaultDictMax, err = None \<rparr>"
    using new by (simp add: NewReader_def)
  have turn1: "snd (Read_iter E p 0 None r) = Continue (0, None, p, ?r5)"
    using up run
    by (simp add: r Read_iter_def copy_out_drained refill_def decode_def dispatch_def Let_def)
  have ith: "take (nat rn) a ! nat i \<noteq> 0"
    using nxt by simp
  have z: "zero_run ?b = 0"
    using nxt up ith by (intro zero_run_stop) auto
  have pend: "pending ?r5 = take (nat m) o'"
    by (simp add: pending_def)
  have "Read_loop E (Suc (Suc k)) p 0 None ?r5 =
     Return (0 + int (length (pending ?r5)), Some EOF,
             take (nat 0) p @ pending ?r5 @ drop (nat 0 + length (pending ?r5)) p,
             ?r5\<lparr>rOutPos := rOutPos ?r5 + int (length (pending ?r5)),
               buf := (buf ?r5)\<lparr>inPos := inPos (buf ?r5) + int (zero_run (buf ?r5))\<rparr>,
               dec := xzDecReset E (dec ?r5), padding := - 1, dEOF := True, err := None\<rparr>)"
    using nxt up outp by (intro Read_loop_padding_end_rEOF) (auto simp: z pend)
  then have rest: "Read_loop E (Suc (Suc k)) p 0 None ?r5 =
     Return (m, Some EOF, take (nat m) o' @ drop (nat m) p,
       \<lparr> src = u', multistream = True, rEOF = True, dEOF = True, padding = - 1,
         inArr = a, rOutPos = m, buf = ?b, dec = xzDecReset E d, err = None \<rparr>)"
    using outp by (simp add: z pend min_absorb2 del: Read_loop.simps)
  have "err r = None"
    by (simp add: r)
  then show ?thesis
    unfolding Read_def using turn1 rest by (simp del: Read_loop.simps add: Read_loop.simps(2) [of E "Suc (Suc k)"])
qed

theorem Read_concatenation_cut_witness:
  "Read toy 3 (toy_reader [([3, 65, 66, 2, 67], Some EOF)]) [0, 0, 0, 0] =
     Return (2, Some EOF, [65, 66, 0, 0], cut_reader) \<and>
   Read toy 6 (toy_reader [([3, 65, 66, 2, 67], None)]) [0, 0, 0, 0] =
     Return (3, Some EOF, [65, 66, 67, 0], whole_reader)"
proof -
  let ?a = "[3, 65, 66, 2, 67] @ replicate (bufSize - 5) 0 :: byte list"
  let ?o = "[65, 66] @ replicate (bufSize - 2) 0 :: byte list"
  let ?d = "\<lparr>cap = DefaultDictMax, todo = Some 0, allowBufError = False\<rparr>"
  have new: "NewReader toy (Some [([3, 65, 66, 2, 67], Some EOF)]) 0 =
      Inr (toy_reader [([3, 65, 66, 2, 67], Some EOF)])"
    by (simp add: NewReader_def toy_reader_def toy_def)
  have up: "src_Read toy [([3, 65, 66, 2, 67], Some EOF)] (replicate bufSize 0) =
      ((?a, 5, Some EOF), [])"
    by (simp add: toy_def script_Read_def bufSize_def)
  have run: "xzDecRun toy (xzDecInit toy DefaultDictMax)
        \<lparr>inB = take (nat 5) ?a, inPos = 0, out = replicate bufSize 0, outPos = 0\<rparr> =
        (xzStreamEnd, ?d, \<lparr>inB = take (nat 5) ?a, inPos = 3, out = ?o, outPos = 2\<rparr>)"
    by (simp add: run_simps)
  have other: "Read toy 6 (toy_reader [([3, 65, 66, 2, 67], None)]) [0, 0, 0, 0] =
      Return (3, Some EOF, [65, 66, 67, 0], whole_reader)"
    by (simp add: run_simps toy_reader_def whole_reader_def)
  have "Read toy (Suc (Suc (Suc 0))) (toy_reader [([3, 65, 66, 2, 67], Some EOF)]) [0, 0, 0, 0] =
      Return (2, Some EOF, [65, 66, 0, 0], cut_reader)"
    using Read_concatenation_cut [OF new up _ _ run, of "[0, 0, 0, 0]" 0]
    by (simp del: Read_loop.simps add: cut_reader_def bufSize_def toy_def)
  with other show ?thesis
    by (simp add: eval_nat_numeral del: Read_loop.simps)
qed

text \<open>
  Claim C6, where the code departs from it. \<^verbatim>\<open>Reset\<close> takes the flag \<^verbatim>\<open>rEOF\<close> for "there
  are no follow on streams". Let the multistream flag be off, and let the upstream hand
  out two streams in one piece together with \<open>EOF\<close>, as an \<^verbatim>\<open>io.Reader\<close> may; as for C3,
  the decoder, whatever it is, decodes the first stream in its first call and stops at
  the first byte of the second, which is not zero. \<^verbatim>\<open>Read\<close> returns the plaintext of the
  first stream and \<open>EOF\<close>. The second stream is then in the input buffer, from \<^verbatim>\<open>inPos\<close>
  on; yet \<^verbatim>\<open>Reset\<close> returns \<open>EOF\<close>, the answer documented for "no follow on streams",
  and leaves the Reader as it is, so that every later \<^verbatim>\<open>Read\<close> returns \<open>EOF\<close> again: the
  follow on stream cannot be read.
\<close>

theorem Reset_misses_buffered_stream:
  assumes new: "NewReader E (Some u) 0 = Inr r"
    and up: "src_Read E u (replicate bufSize 0) = ((a, rn, Some EOF), u')"
      "0 \<le> rn" "rn \<le> int (length a)"
    and run: "xzDecRun E (xzDecInit E DefaultDictMax)
        \<lparr>inB = take (nat rn) a, inPos = 0, out = replicate bufSize 0, outPos = 0\<rparr> =
        (xzStreamEnd, d, \<lparr>inB = take (nat rn) a, inPos = i, out = o', outPos = m\<rparr>)"
    and nxt: "0 \<le> i" "i < rn" "a ! nat i \<noteq> 0"
    and outp: "0 \<le> m" "m \<le> int (length o')" "nat m \<le> length p"
  shows "\<exists>R. R = \<lparr> src = u', multistream = False, rEOF = True, dEOF = True, padding = - 1,
                  inArr = a, rOutPos = m,
                  buf = \<lparr>inB = take (nat rn) a, inPos = i, out = o', outPos = m\<rparr>,
                  dec = xzDecReset E d, err = None \<rparr> \<and>
     Read E (Suc (Suc (Suc k))) (Multistream r False) p =
       Return (m, Some EOF, take (nat m) o' @ drop (nat m) p, R) \<and>
     inPos (buf R) < int (length (inB (buf R))) \<and>
     inB (buf R) ! nat (inPos (buf R)) \<noteq> 0 \<and>
     Reset R = (Some EOF, R) \<and>
     Read E (Suc j) R q = Return (0, Some EOF, q, R)"
proof -
  let ?b = "\<lparr>inB = take (nat rn) a, inPos = i, out = o', outPos = m\<rparr>"
  let ?r5 = "\<lparr> src = u', multistream = False, rEOF = True, dEOF = False, padding = 0,
         inArr = a, rOutPos = 0, buf = ?b, dec = d, err = None \<rparr>"
  let ?R = "\<lparr> src = u', multistream = False, rEOF = True, dEOF = True, padding = - 1,
         inArr = a, rOutPos = m, buf = ?b, dec = xzDecReset E d, err = None \<rparr>"
  have r: "Multistream r False =
       \<lparr> src = u, multistream = False, rEOF = False, dEOF = False, padding = - 1,
         inArr = replicate bufSize 0, rOutPos = 0,
         buf = \<lparr>inB = [], inPos = 0, out = replicate bufSize 0, outPos = 0\<rparr>,
         dec = xzDecInit E DefaultDictMax, err = None \<rparr>"
    using new by (auto simp add: NewReader_def Multistream_def)
  have turn1: "snd (Read_iter E p 0 None (Multistream r False)) = Continue (0, None, p, ?r5)"
    using up run
    by (simp add: r Read_iter_def copy_out_drained refill_def decode_def dispatch_def Let_def)
  have ith: "take (nat rn) a ! nat i \<noteq> 0"
    using nxt by simp
  have z: "zero_run ?b = 0"
    using nxt up ith by (intro zero_run_stop) auto
  have pend: "pending ?r5 = take (nat m) o'"
    by (simp add: pending_def)
  have "Read_loop E (Suc (Suc k)) p 0 None ?r5 =
     Return (0 + int (length (pending ?r5)), Some EOF,
             take (nat 0) p @ pending ?r5 @ drop (nat 0 + length (pending ?r5)) p,
             ?r5\<lparr>rOutPos := rOutPos ?r5 + int (length (pending ?r5)),
               buf := (buf ?r5)\<lparr>inPos := inPos (buf ?r5) + int (zero_run (buf ?r5))\<rparr>,
               dec := xzDecReset E (dec ?r5), padding := - 1, dEOF := True, err := None\<rparr>)"
    using nxt up outp by (intro Read_loop_padding_end_rEOF) (auto simp: z pend)
  then have rest: "Read_loop E (Suc (Suc k)) p 0 None ?r5 =
     Return (m, Some EOF, take (nat m) o' @ drop (nat m) p, ?R)"
    using outp by (simp add: z pend min_absorb2 del: Read_loop.simps)
  have "err (Multistream r False) = None"
    by (simp add: r)
  then have A: "Read E (Suc (Suc (Suc k))) (Multistream r False) p =
       Return (m, Some EOF, take (nat m) o' @ drop (nat m) p, ?R)"
    unfolding Read_def using turn1 rest
    by (simp del: Read_loop.simps add: Read_loop.simps(2) [of E "Suc (Suc k)"])
  have B: "inPos (buf ?R) < int (length (inB (buf ?R)))"
    "inB (buf ?R) ! nat (inPos (buf ?R)) \<noteq> 0"
    using nxt up ith by simp_all
  have C: "Reset ?R = (Some EOF, ?R)"
    by (simp add: Reset_def)
  have "\<not> rOutPos ?R < outPos (buf ?R)"
    by simp
  then have D: "Read E (Suc j) ?R q = Return (0, Some EOF, q, ?R)"
    by (simp add: Read_def Read_iter_def copy_out_drained)
  show ?thesis
    using A B C D by blast
qed

theorem Reset_misses_buffered_stream_witness:
  "Read toy 3 (Multistream (toy_reader [([3, 65, 66, 2, 67], Some EOF)]) False) [0, 0, 0, 0] =
     Return (2, Some EOF, [65, 66, 0, 0], cut_reader\<lparr>multistream := False\<rparr>) \<and>
   inPos (buf (cut_reader\<lparr>multistream := False\<rparr>)) = 3 \<and>
   drop 3 (inB (buf (cut_reader\<lparr>multistream := False\<rparr>))) = [2, 67] \<and>
   Reset (cut_reader\<lparr>multistream := False\<rparr>) = (Some EOF, cut_reader\<lparr>multistream := False\<rparr>) \<and>
   Read toy 1 (cut_reader\<lparr>multistream := False\<rparr>) [0, 0] =
     Return (0, Some EOF, [0, 0], cut_reader\<lparr>multistream := False\<rparr>) \<and>
   Read toy 3 (Multistream (toy_reader [([3, 65, 66, 2, 67], None)]) False) [0, 0, 0, 0] =
     Return (2, Some EOF, [65, 66, 0, 0], cut_reader\<lparr>multistream := False, rEOF := False\<rparr>) \<and>
   Reset (cut_reader\<lparr>multistream := False, rEOF := False\<rparr>) =
     (None, cut_reader\<lparr>rEOF := False, dEOF := False\<rparr>) \<and>
   Read toy 3 (cut_reader\<lparr>rEOF := False, dEOF := False\<rparr>) [0, 0, 0, 0] =
     Return (1, Some EOF, [67, 0, 0, 0], whole_reader)"
proof -
  let ?a = "[3, 65, 66, 2, 67] @ replicate (bufSize - 5) 0 :: byte list"
  let ?o = "[65, 66] @ replicate (bufSize - 2) 0 :: byte list"
  let ?d = "\<lparr>cap = DefaultDictMax, todo = Some 0, allowBufError = False\<rparr>"
  have new: "NewReader toy (Some [([3, 65, 66, 2, 67], Some EOF)]) 0 =
      Inr (toy_reader [([3, 65, 66, 2, 67], Some EOF)])"
    by (simp add: NewReader_def toy_reader_def toy_def)
  have up: "src_Read toy [([3, 65, 66, 2, 67], Some EOF)] (replicate bufSize 0) =
      ((?a, 5, Some EOF), [])"
    by (simp add: toy_def script_Read_def bufSize_def)
  have run: "xzDecRun toy (xzDecInit toy DefaultDictMax)
        \<lparr>inB = take (nat 5) ?a, inPos = 0, out = replicate bufSize 0, outPos = 0\<rparr> =
        (xzStreamEnd, ?d, \<lparr>inB = take (nat 5) ?a, inPos = 3, out = ?o, outPos = 2\<rparr>)"
    by (simp add: run_simps)
  have R: "\<lparr> src = [], multistream = False, rEOF = True, dEOF = True, padding = - 1,
                  inArr = ?a, rOutPos = 2,
                  buf = \<lparr>inB = take (nat 5) ?a, inPos = 3, out = ?o, outPos = 2\<rparr>,
                  dec = xzDecReset toy ?d, err = None \<rparr> = cut_reader\<lparr>multistream := False\<rparr>"
    by (simp add: cut_reader_def toy_def)
  have pts: "inPos (buf (cut_reader\<lparr>multistream := False\<rparr>)) = 3"
    "drop 3 (inB (buf (cut_reader\<lparr>multistream := False\<rparr>))) = [2, 67]"
    by (simp_all add: cut_reader_def)
  from Reset_misses_buffered_stream [OF new up _ _ run, of "[0, 0, 0, 0]" 0 0 "[0, 0]",
      unfolded R]
  have "Read toy (Suc (Suc (Suc 0)))
          (Multistream (toy_reader [([3, 65, 66, 2, 67], Some EOF)]) False) [0, 0, 0, 0] =
      Return (2, Some EOF, [65, 66, 0, 0], cut_reader\<lparr>multistream := False\<rparr>) \<and>
    Reset (cut_reader\<lparr>multistream := False\<rparr>) = (Some EOF, cut_reader\<lparr>multistream := False\<rparr>) \<and>
    Read toy (Suc 0) (cut_reader\<lparr>multistream := False\<rparr>) [0, 0] =
      Return (0, Some EOF, [0, 0], cut_reader\<lparr>multistream := False\<rparr>)"
    by (simp del: Read_loop.simps add: bufSize_def)
  moreover
  have "Read toy 3 (Multistream (toy_reader [([3, 65, 66, 2, 67], None)]) False) [0, 0, 0, 0] =
      Return (2, Some EOF, [65, 66, 0, 0], cut_reader\<lparr>multistream := False, rEOF := False\<rparr>)"
    by (simp add: run_simps toy_reader_def cut_reader_def Multistream_def)
  moreover
  have "Reset (cut_reader\<lparr>multistream := False, rEOF := False\<rparr>) =
      (None, cut_reader\<lparr>rEOF := False, dEOF := False\<rparr>)"
    by (simp add: Reset_def cut_reader_def)
  moreover
  have "Read toy 3 (cut_reader\<lparr>rEOF := False, dEOF := False\<rparr>) [0, 0, 0, 0] =
      Return (1, Some EOF, [67, 0, 0, 0], whole_reader)"
    by (simp add: run_simps cut_reader_def whole_reader_def)
  ultimately show ?thesis
    using pts by (simp add: eval_nat_numeral del: Read_loop.simps)
qed

text \<open>
  The end of a stream and of its padding in a turn of the loop of \<^verbatim>\<open>Read\<close>: after the
  copy loop and the upstream read, \<^verbatim>\<open>decode\<close>, reading padding (\<open>padding \<ge> 0\<close>), returns
  \<open>xzStreamEnd\<close>, and the padding counter has not wrapped. With the multistream flag
  off, \<^verbatim>\<open>Read\<close> delivers the remaining decoded bytes and returns \<open>EOF\<close>, and so does every
  later call, also after \<^verbatim>\<open>Multistream\<close>, with the Reader unchanged: only \<^verbatim>\<open>Reset\<close> clears
  \<^verbatim>\<open>dEOF\<close>. With the flag on and an upstream that has not returned \<open>EOF\<close>, the decoder has
  been reset, \<^verbatim>\<open>dEOF\<close> stays false, the loop goes on, and its next \<^verbatim>\<open>decode\<close> runs the reset
  decoder on the rest of the input.
\<close>

lemma Read_loop_stream_end:
  assumes cur: "0 \<le> n" "n \<le> int (length p)" "0 \<le> rOutPos r" "rOutPos r \<le> outPos (buf r)"
      "outPos (buf r) \<le> int (length (out (buf r)))"
    and room: "length (pending r) \<le> length p - nat n"
    and live: "\<not> dEOF r" "0 \<le> inPos (buf r)"
    and rf: "refill E (r\<lparr>rOutPos := rOutPos r + int (length (pending r))\<rparr>) = Continue r2"
    and pad: "0 \<le> sint (padding r2)"
    and dc: "decode E r2 = Some (xzStreamEnd, r3)"
    and nowrap: "0 \<le> sint (padding r3)"
  shows "(\<not> multistream r \<longrightarrow>
            Read_loop E (Suc (Suc k)) p n None r =
              Return (n + int (length (pending r)), Some EOF,
                      take (nat n) p @ pending r @ drop (nat n + length (pending r)) p,
                      r3\<lparr>padding := - 1, dEOF := True, err := None\<rparr>) \<and>
            Read E (Suc j) (r3\<lparr>padding := - 1, dEOF := True, err := None\<rparr>) q =
              Return (0, Some EOF, q, r3\<lparr>padding := - 1, dEOF := True, err := None\<rparr>) \<and>
            Read E (Suc j) (Multistream (r3\<lparr>padding := - 1, dEOF := True, err := None\<rparr>) ok) q =
              Return (0, Some EOF, q,
                      Multistream (r3\<lparr>padding := - 1, dEOF := True, err := None\<rparr>) ok)) \<and>
         (multistream r \<and> \<not> rEOF r2 \<longrightarrow>
            Read_loop E (Suc k) p n None r =
              Read_loop E k (take (nat n) p @ pending r @ drop (nat n + length (pending r)) p)
                (n + int (length (pending r))) None (r3\<lparr>padding := - 1, err := None\<rparr>) \<and>
            dec r3 = xzDecReset E (dec r) \<and>
            \<not> dEOF (r3\<lparr>padding := - 1, err := None\<rparr>) \<and>
            inPos (buf r3) \<noteq> int (length (inB (buf r3))) \<and>
            decode E (r3\<lparr>padding := - 1, err := None\<rparr>) =
              (case xzDecRun E (xzDecReset E (dec r)) ((buf r3)\<lparr>outPos := 0\<rparr>) of
                 (ret, d', b') \<Rightarrow>
                   Some (ret, r3\<lparr>padding := - 1, err := None, rOutPos := 0, buf := b', dec := d'\<rparr>)))"
proof -
  let ?r1 = "r\<lparr>rOutPos := rOutPos r + int (length (pending r))\<rparr>"
  let ?n1 = "n + int (length (pending r))"
  let ?p1 = "take (nat n) p @ pending r @ drop (nat n + length (pending r)) p"
  note f2 = refill_Continue [OF rf]
  have i2: "0 \<le> inPos (buf r2)"
    using f2 live by simp
  note f3 = decode_padding_fields [OF pad i2 dc]
  have len: "length (pending r) = nat (outPos (buf r) - rOutPos r)"
    using cur by (simp add: length_pending)
  have drained: "\<not> rOutPos r3 < outPos (buf r3)"
    using f2 f3 cur by (simp add: len)
  have turn: "snd (Read_iter E p n None r) =
      Continue (?n1, None, ?p1,
        (if \<not> multistream r \<or> rEOF r2 then r3\<lparr>padding := - 1, dEOF := True, err := None\<rparr>
         else r3\<lparr>padding := - 1, err := None\<rparr>))"
    using room live f2 f3 nowrap
    by (simp add: Read_iter_copied [OF cur] Let_def min_absorb2 rf dc dispatch_def)
  have stop: "snd (Read_iter E q' m None (r3\<lparr>padding := - 1, dEOF := True, err := None\<rparr>)) =
      Break (m, Some EOF, q', r3\<lparr>padding := - 1, dEOF := True, err := None\<rparr>)" for q' m
    using drained by (simp add: Read_iter_def copy_out_drained)
  have stop': "snd (Read_iter E q' m None
        (r3\<lparr>padding := - 1, dEOF := True, err := None, multistream := ok\<rparr>)) =
      Break (m, Some EOF, q', r3\<lparr>padding := - 1, dEOF := True, err := None, multistream := ok\<rparr>)"
    for q' m
    using drained by (simp add: Read_iter_def copy_out_drained)
  have single: "\<not> multistream r \<Longrightarrow> ?thesis"
    by (simp add: turn stop stop' Read_def Multistream_def)
  have multi: "multistream r \<Longrightarrow> \<not> rEOF r2 \<Longrightarrow> ?thesis"
  proof -
    assume m: "multistream r" "\<not> rEOF r2"
    note nx = decode_padding_next [OF pad i2 dc m(2)]
    have d3: "dec r3 = xzDecReset E (dec r)"
      by (subst conjunct1 [OF nx]) (simp add: f2)
    have nxt: "decode E (r3\<lparr>padding := - 1, err := None\<rparr>) =
        (case xzDecRun E (xzDecReset E (dec r)) ((buf r3)\<lparr>outPos := 0\<rparr>) of
           (ret, d', b') \<Rightarrow>
             Some (ret, r3\<lparr>padding := - 1, err := None, rOutPos := 0, buf := b', dec := d'\<rparr>))"
      by (simp add: decode_def d3)
    show ?thesis
      using m conjunct2 [OF nx] f2 f3 live d3 nxt by (simp add: turn)
  qed
  show ?thesis
    using single multi by (cases "multistream r"; cases "rEOF r2") auto
qed

text \<open>
  Claim C5, where the code departs from it: its second half, on the multistream flag
  being on. The Reader is in multistream mode at the end of a stream, reading padding;
  its input buffer is used up and the upstream has not returned \<open>EOF\<close>. The upstream now
  hands out \<open>rn\<close> bytes together with \<open>EOF\<close>, as an \<^verbatim>\<open>io.Reader\<close> may: \<open>z\<close> zero bytes, which
  complete a padding of a multiple of four bytes, and then a byte that is not zero, the
  start of the next stream. So more input is available, and the claim has the decoder
  reset and go on with the next stream. \<^verbatim>\<open>Read\<close> does reset the decoder, but then sets
  \<^verbatim>\<open>dEOF\<close>, \<^verbatim>\<open>rEOF\<close> being true by now, and returns \<open>EOF\<close>, and so does every later call:
  the next stream stays in the input buffer, unread. The hypotheses are on the Reader
  and on the answer of the upstream only.
\<close>

theorem Read_next_stream_with_EOF:
  assumes cur: "0 \<le> n" "n \<le> int (length p)" "0 \<le> rOutPos r" "rOutPos r \<le> outPos (buf r)"
      "outPos (buf r) \<le> int (length (out (buf r)))"
    and room: "length (pending r) \<le> length p - nat n"
    and mode: "multistream r" "\<not> dEOF r" "\<not> rEOF r"
    and need: "inPos (buf r) = int (length (inB (buf r)))"
    and up: "src_Read E (src r) (inArr r) = ((a, rn, Some EOF), u)" "rn \<le> int (length a)"
    and pad: "0 \<le> sint (padding r)" "0 \<le> sint (padding r + of_nat z)"
      "sint (padding r + of_nat z) smod 4 = 0"
    and z: "z = zero_run ((buf r)\<lparr>inB := take (nat rn) a, inPos := 0\<rparr>)"
    and byte: "int z < rn"
  shows "Read_loop E (Suc (Suc k)) p n None r =
     Return (n + int (length (pending r)), Some EOF,
             take (nat n) p @ pending r @ drop (nat n + length (pending r)) p,
             r\<lparr>rOutPos := rOutPos r + int (length (pending r)), src := u, inArr := a,
               rEOF := True, buf := (buf r)\<lparr>inB := take (nat rn) a, inPos := int z\<rparr>,
               dec := xzDecReset E (dec r), padding := - 1, dEOF := True, err := None\<rparr>) \<and>
     a ! z \<noteq> 0 \<and>
     Read E (Suc j)
       (r\<lparr>rOutPos := rOutPos r + int (length (pending r)), src := u, inArr := a,
               rEOF := True, buf := (buf r)\<lparr>inB := take (nat rn) a, inPos := int z\<rparr>,
               dec := xzDecReset E (dec r), padding := - 1, dEOF := True, err := None\<rparr>) q =
     Return (0, Some EOF, q,
       r\<lparr>rOutPos := rOutPos r + int (length (pending r)), src := u, inArr := a,
               rEOF := True, buf := (buf r)\<lparr>inB := take (nat rn) a, inPos := int z\<rparr>,
               dec := xzDecReset E (dec r), padding := - 1, dEOF := True, err := None\<rparr>)"
proof -
  let ?b2 = "(buf r)\<lparr>inB := take (nat rn) a, inPos := 0\<rparr>"
  let ?r1 = "r\<lparr>rOutPos := rOutPos r + int (length (pending r))\<rparr>"
  let ?r2 = "?r1\<lparr>src := u, inArr := a, rEOF := True, buf := ?b2\<rparr>"
  let ?n1 = "n + int (length (pending r))"
  let ?p1 = "take (nat n) p @ pending r @ drop (nat n + length (pending r)) p"
  let ?R = "r\<lparr>rOutPos := rOutPos r + int (length (pending r)), src := u, inArr := a,
               rEOF := True, buf := (buf r)\<lparr>inB := take (nat rn) a, inPos := int z\<rparr>,
               dec := xzDecReset E (dec r), padding := - 1, dEOF := True, err := None\<rparr>"
  have rn: "0 \<le> rn"
    using byte by simp
  have rf: "refill E ?r1 = Continue ?r2"
    using need mode up rn by (simp add: refill_def)
  have dc: "decode E ?r2 =
      Some (xzStreamEnd,
            ?r2\<lparr>buf := ?b2\<lparr>inPos := int z\<rparr>, padding := padding r + of_nat z,
                 dec := xzDecReset E (dec r)\<rparr>)"
    using pad byte rn up(2) by (simp add: decode_padding Let_def z [symmetric])
  have turn1: "snd (Read_iter E p n None r) = Continue (?n1, None, ?p1, ?R)"
    using room mode pad
    by (simp add: Read_iter_copied [OF cur] Let_def min_absorb2 rf dc dispatch_def)
  have len: "length (pending r) = nat (outPos (buf r) - rOutPos r)"
    using cur by (simp add: length_pending)
  have drained: "\<not> rOutPos ?R < outPos (buf ?R)"
    using cur by (simp add: len)
  have stop: "snd (Read_iter E q' m None ?R) = Break (m, Some EOF, q', ?R)" for q' m
    using drained by (simp add: Read_iter_def copy_out_drained)
  have nz: "inB ?b2 ! nat (inPos ?b2 + int (zero_run ?b2)) \<noteq> 0"
    using byte rn up(2) by (intro zero_run_nth) (simp_all add: z [symmetric])
  have "a ! z \<noteq> 0"
    using nz byte by (simp add: z [symmetric])
  moreover have "Read_loop E (Suc (Suc k)) p n None r = Return (?n1, Some EOF, ?p1, ?R)"
    by (simp add: turn1 stop)
  moreover have "Read E (Suc j) ?R q = Return (0, Some EOF, q, ?R)"
    by (simp add: Read_def stop)
  ultimately show ?thesis
    by simp
qed

theorem Read_next_stream_with_EOF_witness:
  "snd (Read_iter toy [0, 0, 0, 0] 0 None
          (toy_reader [([2, 65], None), ([2, 66], Some EOF)])) =
     Continue (0, None, [0, 0, 0, 0], stream_end_reader) \<and>
   multistream stream_end_reader \<and>
   Read toy (Suc (Suc 0)) stream_end_reader [0, 0, 0, 0] =
     Return (1, Some EOF, [65, 0, 0, 0], dropped_reader) \<and>
   inB (buf dropped_reader) = [2, 66] \<and> inPos (buf dropped_reader) = 0 \<and>
   Read toy (Suc 0) dropped_reader [0, 0] = Return (0, Some EOF, [0, 0], dropped_reader) \<and>
   Read toy 6 (toy_reader [([2, 65], None), ([2, 66], None)]) [0, 0, 0, 0] =
     Return (2, Some EOF, [65, 66, 0, 0], both_reader)"
proof -
  let ?r = "stream_end_reader"
  let ?a = "[2, 66] @ replicate (bufSize - 2) 0 :: byte list"
  have turn: "snd (Read_iter toy [0, 0, 0, 0] 0 None
          (toy_reader [([2, 65], None), ([2, 66], Some EOF)])) =
      Continue (0, None, [0, 0, 0, 0], stream_end_reader)"
    by (simp add: run_simps toy_reader_def stream_end_reader_def)
  have other: "Read toy 6 (toy_reader [([2, 65], None), ([2, 66], None)]) [0, 0, 0, 0] =
      Return (2, Some EOF, [65, 66, 0, 0], both_reader)"
    by (simp add: run_simps toy_reader_def both_reader_def)
  have pend: "pending ?r = [65]"
    by (simp add: pending_def stream_end_reader_def bufSize_def)
  have cur: "(0::int) \<le> 0" "0 \<le> int (length [0, 0, 0, 0 :: byte])" "0 \<le> rOutPos ?r"
    "rOutPos ?r \<le> outPos (buf ?r)" "outPos (buf ?r) \<le> int (length (out (buf ?r)))"
    "length (pending ?r) \<le> length [0, 0, 0, 0 :: byte] - nat 0"
    "multistream ?r" "\<not> dEOF ?r" "\<not> rEOF ?r"
    "inPos (buf ?r) = int (length (inB (buf ?r)))"
    by (simp_all add: pend) (simp_all add: stream_end_reader_def bufSize_def)
  have up: "src_Read toy (src ?r) (inArr ?r) = ((?a, 2, Some EOF), [])"
    "2 \<le> int (length ?a)"
    by (simp_all add: toy_def script_Read_def stream_end_reader_def bufSize_def)
  have pad: "0 \<le> sint (padding ?r)" "0 \<le> sint (padding ?r + of_nat 0)"
    "sint (padding ?r + of_nat 0) smod 4 = 0"
    by (simp_all add: stream_end_reader_def)
  have z: "0 = zero_run ((buf ?r)\<lparr>inB := take (nat 2) ?a, inPos := 0\<rparr>)"
    by (simp add: zero_run_def)
  have byte: "int 0 < 2"
    by simp
  have e: "err ?r = None"
    by (simp add: stream_end_reader_def)
  have R: "?r\<lparr>rOutPos := rOutPos ?r + int (length (pending ?r)), src := [], inArr := ?a,
               rEOF := True, buf := (buf ?r)\<lparr>inB := take (nat 2) ?a, inPos := int 0\<rparr>,
               dec := xzDecReset toy (dec ?r), padding := - 1, dEOF := True, err := None\<rparr> =
        dropped_reader"
    by (simp add: pend) (simp add: stream_end_reader_def dropped_reader_def toy_def)
  note inst = Read_next_stream_with_EOF [OF cur up pad z byte,
      where k = 0 and j = 0 and q = "[0, 0]"]
  have "Read toy (Suc (Suc 0)) ?r [0, 0, 0, 0] =
      Return (1, Some EOF, [65, 0, 0, 0], dropped_reader)"
    using inst [THEN conjunct1] R by (simp add: Read_def e pend del: Read_loop.simps)
  moreover have "Read toy (Suc 0) dropped_reader [0, 0] =
      Return (0, Some EOF, [0, 0], dropped_reader)"
    using inst [THEN conjunct2, THEN conjunct2] R by (simp add: pend del: Read_loop.simps)
  moreover have "inB (buf dropped_reader) = [2, 66]" "inPos (buf dropped_reader) = 0"
    "multistream ?r"
    by (simp_all add: dropped_reader_def stream_end_reader_def)
  ultimately show ?thesis
    using turn other by (simp del: Read_loop.simps)
qed

subsection \<open>Cursors and bounds\<close>

text \<open>
  Claim C9 does not hold where it says that \<^verbatim>\<open>buf.inPos\<close> and \<^verbatim>\<open>r.outPos\<close> never move
  backward within a call. During one call of \<^verbatim>\<open>Read\<close> on two streams that the upstream
  hands out one after the other, \<^verbatim>\<open>buf.inPos\<close> goes from 3 back to 0 when \<^verbatim>\<open>Read\<close> sets a
  new input buffer, and \<^verbatim>\<open>r.outPos\<close> from 2 back to 0 when \<^verbatim>\<open>decode\<close> runs the decoder
  again.
\<close>

theorem Read_cursors_move_back:
  "map (inPos \<circ> buf) (Read_obs toy 3 (toy_reader [([3, 65, 66], None), ([2, 67], None)]) [0, 0, 0, 0]) =
     [0, 0, 0, 3, 3, 3, 0, 0, 0, 0, 0, 2, 2] \<and>
   map rOutPos (Read_obs toy 3 (toy_reader [([3, 65, 66], None), ([2, 67], None)]) [0, 0, 0, 0]) =
     [0, 0, 0, 0, 0, 2, 2, 2, 2, 2, 2, 0, 0]"
  by (simp add: run_simps toy_reader_def Read_obs_def obs_loop_numeral)

text \<open>
  Claim C9, amended. Let a run of the decoder leave \<^verbatim>\<open>buf.in\<close> as it is and the cursors of
  \<^verbatim>\<open>xzBuf\<close> within the buffers, as documented, and let it not move \<^verbatim>\<open>inPos\<close> backward
  (\<open>xzDecRun_ok\<close>); let the upstream return a count between 0 and \<^verbatim>\<open>len(p)\<close> and leave the
  length of the array as it is, as \<^verbatim>\<open>io.Reader\<close> requires (\<open>src_Read_ok\<close>). On a Reader
  whose cursors are in range and whose \<^verbatim>\<open>buf.in\<close> is no longer than the array \<^verbatim>\<open>r.in\<close>, as
  after \<^verbatim>\<open>NewReader\<close>, a call of \<^verbatim>\<open>Read\<close> never indexes out of range (it does not panic),
  and at every observation \<open>0 \<le> buf.inPos \<le> len(buf.in)\<close> and \<open>0 \<le> r.outPos \<le>
  buf.outPos \<le> len(buf.out)\<close>. From one observation to the next the cursors move as
  \<open>moved\<close> says: \<^verbatim>\<open>buf.inPos\<close> is set back, to 0, only by the step of \<^verbatim>\<open>Read\<close> that installs a
  new input buffer (the old one used up, \<^verbatim>\<open>rEOF\<close> false), and \<^verbatim>\<open>r.outPos\<close> is set back, to
  0, only by the step of \<^verbatim>\<open>decode\<close> that runs the decoder (\<^verbatim>\<open>r.padding\<close> negative); in every
  other step each of them advances or stays. When \<^verbatim>\<open>Read\<close> returns (it need not, see
  \<open>Read_loop_idle_upstream\<close>), \<open>0 \<le> n \<le> len(p)\<close>, and \<open>p\<close> is as before from index
  \<open>n\<close> on. The observations are the Reader at the call and after each part of a turn of
  the loop; \<open>Read_trace\<close> lists them with their parts, \<open>Read_obs\<close> without. (Between the
  two assignments that start a decoder run, \<^verbatim>\<open>r.buf.outPos = 0\<close> and \<^verbatim>\<open>r.outPos = 0\<close>, the
  second cursor may exceed the first; nothing is indexed there, and it is not an
  observation.)
\<close>

theorem Read_cursors:
  assumes "xzDecRun_ok E" "src_Read_ok E" "cursors_ok r" "slice_ok r"
  shows "Read E k r p \<noteq> Panic \<and>
     map snd (Read_trace E k r p) = Read_obs E k r p \<and>
     (\<forall>R \<in> set (Read_obs E k r p). cursors_ok R) \<and>
     successively moved (Read_trace E k r p) \<and>
     (\<forall>n e p' r'. Read E k r p = Return (n, e, p', r') \<longrightarrow>
        0 \<le> n \<and> n \<le> int (length p) \<and> length p' = length p \<and>
        drop (nat n) p' = drop (nat n) p \<and> cursors_ok r' \<and> slice_ok r') \<and>
     (\<forall>u d r0. NewReader E (Some u) d = Inr r0 \<longrightarrow> cursors_ok r0 \<and> slice_ok r0)"
proof -
  have new: "\<forall>u d r0. NewReader E (Some u) d = Inr r0 \<longrightarrow> cursors_ok r0 \<and> slice_ok r0"
    by (auto simp: NewReader_def cursors_ok_def buf_ok_def slice_ok_def)
  have pre: "(0::int) \<le> 0" "0 \<le> int (length p)" "Called = Called \<or> Called = Saved"
    by simp_all
  note L = Read_loop_inv [OF assms pre, of k "err r"]
  have tr: "map snd ((Called, r) # trace_loop E k p 0 (err r) r) =
      r # obs_loop E k p 0 (err r) r"
    using L by simp
  have obs: "\<forall>R \<in> set (r # obs_loop E k p 0 (err r) r). cursors_ok R"
    using L assms(3) by simp
  have ret: "\<forall>n e p' r'. Read_loop E k p 0 (err r) r = Return (n, e, p', r') \<longrightarrow>
        0 \<le> n \<and> n \<le> int (length p) \<and> length p' = length p \<and>
        drop (nat n) p' = drop (nat n) p \<and> cursors_ok r' \<and> slice_ok r'"
  proof (intro allI impI)
    fix n e p' r'
    assume "Read_loop E k p 0 (err r) r = Return (n, e, p', r')"
    with L have "0 \<le> n \<and> n \<le> int (length p') \<and> length p' = length p \<and>
        drop (nat n) p' = drop (nat n) p \<and> cursors_ok r' \<and> slice_ok r'"
      by blast
    then show "0 \<le> n \<and> n \<le> int (length p) \<and> length p' = length p \<and>
        drop (nat n) p' = drop (nat n) p \<and> cursors_ok r' \<and> slice_ok r'"
      by (elim conjE) simp
  qed
  show ?thesis
    unfolding Read_def Read_obs_def Read_trace_def
    using L tr obs new ret by blast
qed

theorem Read_cursors_witness:
  "xzDecRun_ok toy \<and> src_Read_ok toy \<and>
   cursors_ok (toy_reader [([3, 65, 66], None), ([2, 67], None)]) \<and>
   slice_ok (toy_reader [([3, 65, 66], None), ([2, 67], None)]) \<and>
   Read toy 6 (toy_reader [([3, 65, 66], None), ([2, 67], None)]) [0, 0, 0, 0] = 
     Return (3, Some EOF, [65, 66, 67, 0], whole_reader\<lparr>inArr := [2, 67, 66] @ replicate (bufSize - 3) 0\<rparr>) \<and>
   cursors_ok (whole_reader\<lparr>inArr := [2, 67, 66] @ replicate (bufSize - 3) 0\<rparr>) \<and>
   list_all cursors_ok (Read_obs toy 6 (toy_reader [([3, 65, 66], None), ([2, 67], None)]) [0, 0, 0, 0]) \<and>
   successively moved (Read_trace toy 6 (toy_reader [([3, 65, 66], None), ([2, 67], None)]) [0, 0, 0, 0]) \<and>
   map fst (Read_trace toy 3 (toy_reader [([3, 65, 66], None), ([2, 67], None)]) [0, 0, 0, 0]) =
     [Called, Copied, Refilled, Decoded, Saved, Copied, Refilled, Decoded, Saved,
      Copied, Refilled, Decoded, Saved] \<and>
   \<not> moved (Copied, whole_reader) (Refilled, whole_reader\<lparr>rOutPos := 0\<rparr>) \<and>
   \<not> moved (Refilled, cut_reader) (Decoded, cut_reader\<lparr>buf := (buf cut_reader)\<lparr>inPos := 0\<rparr>\<rparr>)"
proof -
  let ?r = "toy_reader [([3, 65, 66], None), ([2, 67], None)]"
  have ok: "cursors_ok ?r" "slice_ok ?r"
    by (simp_all add: toy_reader_def cursors_ok_def buf_ok_def slice_ok_def)
  have run: "Read toy 6 ?r [0, 0, 0, 0] =
     Return (3, Some EOF, [65, 66, 67, 0], whole_reader\<lparr>inArr := [2, 67, 66] @ replicate (bufSize - 3) 0\<rparr>)"
    by (simp add: run_simps toy_reader_def whole_reader_def)
  have phases: "map fst (Read_trace toy 3 ?r [0, 0, 0, 0]) =
     [Called, Copied, Refilled, Decoded, Saved, Copied, Refilled, Decoded, Saved,
      Copied, Refilled, Decoded, Saved]"
    by (simp add: run_simps toy_reader_def Read_trace_def trace_loop_numeral tagged_def)
  have no: "\<not> moved (Copied, whole_reader) (Refilled, whole_reader\<lparr>rOutPos := 0\<rparr>)"
    "\<not> moved (Refilled, cut_reader) (Decoded, cut_reader\<lparr>buf := (buf cut_reader)\<lparr>inPos := 0\<rparr>\<rparr>)"
    by (simp_all add: moved_def whole_reader_def cut_reader_def)
  from Read_cursors [OF toy_xzDecRun_ok toy_src_Read_ok ok, of 6 "[0, 0, 0, 0]"] run
  show ?thesis
    using toy_xzDecRun_ok toy_src_Read_ok ok phases no by (simp add: list_all_iff)
qed

end
